theory Spec2Isabelle
  imports
    Main
    "HOL-Library.Sublist"
    "HOL-Library.Char_ord"
    "HOL-Library.List_Lexorder"
    "HOL-Library.AList"
begin

section \<open>Text primitives of the script\<close>

text \<open>
  Python strings are modelled as \<open>string\<close> (lists of 8-bit characters). The tables of
  the script (\<open>ROM_EXT_MAP\<close>, \<open>IMG_EXTENSIONS\<close>, the regular expression of
  \<open>match_score\<close>) are ASCII, and the tests against them only need the ASCII letters
  lower-cased. \<open>str.upper()\<close>, whose result the script writes into the catalog, is not
  modelled by a function of this theory: the run takes it as a parameter (\<open>upper\<close> in the
  definitions, \<open>up\<close> in the statements), and every general statement holds for any
  function in its place.
\<close>

definition is_upper :: "char \<Rightarrow> bool" where
  "is_upper c = (CHR ''A'' \<le> c \<and> c \<le> CHR ''Z'')"

definition is_lower :: "char \<Rightarrow> bool" where
  "is_lower c = (CHR ''a'' \<le> c \<and> c \<le> CHR ''z'')"

definition is_digit :: "char \<Rightarrow> bool" where
  "is_digit c = (CHR ''0'' \<le> c \<and> c \<le> CHR ''9'')"

definition lower_char :: "char \<Rightarrow> char" where
  "lower_char c = (if is_upper c then char_of (of_char c + (32::nat)) else c)"

definition upper_char :: "char \<Rightarrow> char" where
  "upper_char c = (if is_lower c then char_of (of_char c - (32::nat)) else c)"

text \<open>\<open>str.lower()\<close>, as far as the comparisons with the ASCII tables go.\<close>

definition lower :: "string \<Rightarrow> string" where
  "lower s = map lower_char s"

text \<open>
  \<open>str.upper()\<close> on ASCII strings. It stands for \<open>up\<close> in the examples only, whose
  names are ASCII.
\<close>

definition ascii_upper :: "string \<Rightarrow> string" where
  "ascii_upper s = map upper_char s"

text \<open>The character class \<open>[a-z0-9]\<close> of the regular expression in \<open>match_score\<close>.\<close>

definition is_word_char :: "char \<Rightarrow> bool" where
  "is_word_char c = (is_lower c \<or> is_digit c)"

text \<open>
  \<open>re.findall(r'[a-z0-9]{2,}', s)\<close>: the scan goes left to right; at a character
  of the class the greedy repetition takes the whole run of class characters that starts
  there, reports it when it has at least two characters, and resumes after the run.
\<close>

function findall :: "string \<Rightarrow> string list" where
  "findall [] = []"
| "findall (c # cs) =
     (if is_word_char c
      then (let run = takeWhile is_word_char (c # cs);
                rest = dropWhile is_word_char (c # cs)
            in if 2 \<le> length run then run # findall rest else findall rest)
      else findall cs)"
  by pat_completeness auto
termination
  by (relation "measure length") (auto simp: length_dropWhile_le le_imp_less_Suc)

text \<open>
  \<open>match_score\<close>. The two token collections are Python sets: \<open>remdups\<close> keeps one
  copy of each token. For every token \<open>rw\<close> of the ROM name the inner loop looks for a
  token \<open>iw\<close> of the image name with \<open>rw == iw or rw in iw or iw in rw\<close>, adds one at the
  first hit and breaks: the token counts once exactly when such an \<open>iw\<close> exists. Python's
  \<open>in\<close> on strings is contiguous containment, \<^const>\<open>sublist\<close>.
\<close>

definition token_hit :: "string \<Rightarrow> string \<Rightarrow> bool" where
  "token_hit rw iw = (rw = iw \<or> sublist rw iw \<or> sublist iw rw)"

fun inner_scan :: "string \<Rightarrow> string list \<Rightarrow> nat \<Rightarrow> nat" where
  "inner_scan rw [] score = score"
| "inner_scan rw (iw # iws) score =
     (if token_hit rw iw then score + 1 else inner_scan rw iws score)"

fun outer_scan :: "string list \<Rightarrow> string list \<Rightarrow> nat \<Rightarrow> nat" where
  "outer_scan [] img_words score = score"
| "outer_scan (rw # rws) img_words score =
     outer_scan rws img_words (inner_scan rw img_words score)"

definition match_score :: "string \<Rightarrow> string \<Rightarrow> nat" where
  "match_score rom_name img_name =
     (let rom_words = remdups (findall (lower rom_name));
          img_words = remdups (findall (lower img_name))
      in if rom_words = [] \<or> img_words = [] then 0
         else outer_scan rom_words img_words 0)"

text \<open>
  The tokens of a name as the specification words them: the runs of characters of
  \<open>[a-z0-9]\<close> of length at least 2 that cannot be extended to the left or to the right.
\<close>

definition is_token :: "string \<Rightarrow> string \<Rightarrow> bool" where
  "is_token s w =
     (\<exists>pre post. s = pre @ w @ post \<and> 2 \<le> length w \<and> (\<forall>c\<in>set w. is_word_char c)
        \<and> (pre = [] \<or> \<not> is_word_char (last pre))
        \<and> (post = [] \<or> \<not> is_word_char (hd post)))"

section \<open>File names and lines\<close>

text \<open>
  \<open>Path.suffix\<close> and \<open>Path.stem\<close> of a file name: with \<open>i = name.rfind('.')\<close>, the
  suffix is \<open>name[i:]\<close> and the stem \<open>name[:i]\<close> when \<open>0 < i < len(name) - 1\<close>; otherwise
  the suffix is empty and the stem is the whole name.
\<close>

definition rfind :: "char \<Rightarrow> string \<Rightarrow> int" where
  "rfind c s =
     (if c \<in> set s
      then int (length s) - 1 - int (length (takeWhile (\<lambda>d. d \<noteq> c) (rev s)))
      else - 1)"

definition path_suffix :: "string \<Rightarrow> string" where
  "path_suffix name =
     (let i = rfind (CHR ''.'') name
      in if 0 < i \<and> i < int (length name) - 1 then drop (nat i) name else [])"

definition path_stem :: "string \<Rightarrow> string" where
  "path_stem name =
     (let i = rfind (CHR ''.'') name
      in if 0 < i \<and> i < int (length name) - 1 then take (nat i) name else name)"

text \<open>\<open>name.replace(',', '')\<close> and \<open>',' in name\<close>.\<close>

definition remove_commas :: "string \<Rightarrow> string" where
  "remove_commas name = filter (\<lambda>c. c \<noteq> CHR '','') name"

definition has_comma :: "string \<Rightarrow> bool" where
  "has_comma name = (CHR '','' \<in> set name)"

text \<open>\<open>str.strip()\<close>: removes the ASCII white space at both ends.\<close>

definition is_space :: "char \<Rightarrow> bool" where
  "is_space c =
     (c \<in> set [CHR 0x09, CHR 0x0A, CHR 0x0B, CHR 0x0C, CHR 0x0D,
               CHR 0x1C, CHR 0x1D, CHR 0x1E, CHR 0x1F, CHR 0x20])"

definition strip :: "string \<Rightarrow> string" where
  "strip s = rev (dropWhile is_space (rev (dropWhile is_space s)))"

text \<open>
  \<open>for line in f\<close> on a file opened in text mode: the text is cut after every line
  terminator (\<open>\n\<close>, \<open>\r\n\<close> or \<open>\r\<close>, universal newlines). Every loop of the script
  strips the line first, which removes the terminator, so the model returns the lines
  without it.
\<close>

fun file_lines_acc :: "string \<Rightarrow> string \<Rightarrow> string list" where
  "file_lines_acc acc [] = (if acc = [] then [] else [rev acc])"
| "file_lines_acc acc (c # cs) =
     (if c = CHR 0x0A then rev acc # file_lines_acc [] cs
      else if c = CHR 0x0D then
        (case cs of
           [] \<Rightarrow> [rev acc]
         | d # ds \<Rightarrow>
             if d = CHR 0x0A then rev acc # file_lines_acc [] ds
             else rev acc # file_lines_acc [] cs)
      else file_lines_acc (c # acc) cs)"

definition file_lines :: "string \<Rightarrow> string list" where
  "file_lines text = file_lines_acc [] text"

text \<open>\<open>'\n'.join(lines)\<close> and the text \<open>'\n'.join(lines) + '\n'\<close> the script writes.\<close>

fun join_lines :: "string list \<Rightarrow> string" where
  "join_lines [] = []"
| "join_lines [l] = l"
| "join_lines (l # m # ls) = l @ [CHR 0x0A] @ join_lines (m # ls)"

definition lines_text :: "string list \<Rightarrow> string" where
  "lines_text ls = join_lines ls @ [CHR 0x0A]"

text \<open>\<open>line.split('|')[0]\<close>: the text before the first pipe.\<close>

definition first_field :: "string \<Rightarrow> string" where
  "first_field line = takeWhile (\<lambda>c. c \<noteq> CHR ''|'') line"

section \<open>The volume\<close>

text \<open>
  A directory is the list of its regular files, name and content, in the order
  \<open>iterdir()\<close> lists them; a real directory has no name twice. The volume has the
  layout the script works on: below the root one directory per platform (or none), each
  with its regular files (ROMs, loose images, \<open>filelist.csv\<close>) and possibly the
  sub-directory \<open>images/\<close>, and the directory \<open>cubegm/\<close> with \<open>allfiles.lst\<close>,
  \<open>favorites.lst\<close> and \<open>recent.lst\<close>. Entries that are not regular files are skipped by
  every \<open>is_file()\<close> test of the script and are not part of the model.
\<close>

type_synonym dir = "(string \<times> string) list"

record platform_dir =
  files :: dir
  images :: "dir option"

record volume =
  platform_dirs :: "string \<Rightarrow> platform_dir option"
  cubegm :: "string \<Rightarrow> string option"

definition names :: "dir \<Rightarrow> string list" where
  "names d = map fst d"

text \<open>Writing a file replaces its content in place or adds the file to the directory.\<close>

definition write_file :: "string \<Rightarrow> string \<Rightarrow> dir \<Rightarrow> dir" where
  "write_file name text d = AList.update name text d"

definition unlink :: "string \<Rightarrow> dir \<Rightarrow> dir" where
  "unlink name d = AList.delete name d"

text \<open>
  \<open>f.rename(directory / new_name)\<close> with the semantics of \<open>os.rename\<close> the specification
  relies on: an existing target file is replaced. The files renamed by the script are
  there when it renames them (the names come from a listing, and no target contains a
  comma); the model leaves the directory as it is for a missing source.
\<close>

definition rename :: "string \<Rightarrow> string \<Rightarrow> dir \<Rightarrow> dir" where
  "rename old new d =
     (case map_of d old of
        None \<Rightarrow> d
      | Some text \<Rightarrow> write_file new text (unlink old d))"

text \<open>
  The new name is the old one without its commas, so it can be empty, \<open>.\<close> or \<open>..\<close>.
  Then \<open>directory / new_name\<close> is the directory itself or its parent, \<open>os.rename\<close> of a
  file onto a directory raises \<open>OSError\<close>, and the script does not catch it: the run
  stops there.
\<close>

datatype error = OSError

definition bad_target :: "string \<Rightarrow> bool" where
  "bad_target new_name = (new_name = [] \<or> new_name = ''.'' \<or> new_name = ''..'')"

section \<open>Tables\<close>

definition ROM_EXT_MAP :: "(string \<times> string list) list" where
  "ROM_EXT_MAP =
     [(''ATARI'', [''.a26'', ''.a78'', ''.bin'', ''.zip'', ''.7z'']),
      (''FC'',    [''.nes'', ''.fds'', ''.zip'', ''.7z'']),
      (''GB'',    [''.gb'', ''.zip'', ''.7z'']),
      (''GBA'',   [''.gba'', ''.zip'', ''.7z'']),
      (''GBC'',   [''.gbc'', ''.zip'', ''.7z'']),
      (''GG'',    [''.gg'', ''.sms'', ''.zip'', ''.7z'']),
      (''MAME'',  [''.fba'', ''.zip'', ''.7z'']),
      (''MD'',    [''.md'', ''.gen'', ''.bin'', ''.zip'', ''.7z'', ''.smd'']),
      (''NGPC'',  [''.ngp'', ''.ngc'', ''.zip'', ''.7z'']),
      (''PCE'',   [''.pce'', ''.zip'', ''.7z'']),
      (''PS'',    [''.img'', ''.iso'', ''.bin'', ''.cue'', ''.pbp'', ''.chd'', ''.zip'', ''.7z'']),
      (''SFC'',   [''.sfc'', ''.smc'', ''.zip'', ''.7z''])]"

definition IMG_EXTENSIONS :: "string list" where
  "IMG_EXTENSIONS = [''.jpg'', ''.jpeg'', ''.png'', ''.bmp'', ''.gif'']"

text \<open>\<open>ROM_EXT_MAP[platform]\<close>, for the platforms of the table.\<close>

definition rom_exts :: "string \<Rightarrow> string list" where
  "rom_exts p = (case map_of ROM_EXT_MAP p of Some exts \<Rightarrow> exts | None \<Rightarrow> [])"

text \<open>\<open>platforms = sorted(ROM_EXT_MAP.keys())\<close>.\<close>

definition platforms :: "string list" where
  "platforms = sort (map fst ROM_EXT_MAP)"

section \<open>Catalog scanner\<close>

text \<open>
  \<open>get_roms\<close>: the files whose lower-cased suffix is one of the extensions, sorted by
  name. \<open>get_images\<close>: the files with an image suffix, in listing order. A file is
  named by its file name; its directory is known from the context.
\<close>

definition is_rom :: "string list \<Rightarrow> string \<Rightarrow> bool" where
  "is_rom exts f = (lower (path_suffix f) \<in> set exts)"

definition get_roms :: "dir \<Rightarrow> string list \<Rightarrow> string list" where
  "get_roms d exts = sort (filter (is_rom exts) (names d))"

definition is_image :: "string \<Rightarrow> bool" where
  "is_image f = (lower (path_suffix f) \<in> set IMG_EXTENSIONS)"

definition get_images :: "dir \<Rightarrow> string list" where
  "get_images d = filter is_image (names d)"

section \<open>Tabular store\<close>

text \<open>
  \<open>load_csv\<close>: the argument is the content of the file, \<open>None\<close> when the file does not
  exist. A line is stripped; an empty line, a line without a comma and a line that
  starts with a comma are skipped; otherwise the text before the first comma, stripped,
  is the key and the text after it the value. A later line overrides an earlier one
  with the same key, as the assignment to the dictionary does.
\<close>

definition csv_record :: "string \<Rightarrow> (string \<times> string) option" where
  "csv_record raw =
     (let line = strip raw
      in if line = [] then None
         else if has_comma line
         then (let idx = length (takeWhile (\<lambda>c. c \<noteq> CHR '','') line)
               in if 0 < idx then Some (strip (take idx line), drop (idx + 1) line)
                  else None)
         else None)"

fun load_records :: "string list \<Rightarrow> (string \<Rightarrow> string option) \<Rightarrow> (string \<Rightarrow> string option)" where
  "load_records [] data = data"
| "load_records (raw # raws) data =
     (case csv_record raw of
        None \<Rightarrow> load_records raws data
      | Some (k, v) \<Rightarrow> load_records raws (data(k \<mapsto> v)))"

definition load_csv :: "string option \<Rightarrow> (string \<Rightarrow> string option)" where
  "load_csv csv =
     (case csv of
        None \<Rightarrow> Map.empty
      | Some text \<Rightarrow> load_records (file_lines text) Map.empty)"

section \<open>The run\<close>

text \<open>
  The log of a run: one entry at every place where the script guards a change of the
  volume by \<open>if not dry_run\<close>, in the order the script reaches them. In a dry run the
  entry is the change the script reports or counts; in execute mode it is the change it
  makes (a rename that raises makes none and leaves no entry).
\<close>

datatype action =
    RenameRom string string string
  | RenameImage string string string
  | CreateImagesDir string
  | MoveImage string string string nat
  | DeleteDuplicate string string
  | DeleteOrphan string string
  | WriteCsv string "string list"
  | TruncateCsv string
  | WriteAllfiles "string list"
  | WriteList string "string list"

subsection \<open>Step 1: names with commas\<close>

text \<open>
  The loops of step 1 return the directory, the log and the exception that stopped them,
  if one did.

  The loop over the listing of the platform directory: a ROM (by suffix) whose name has
  a comma is renamed to the name without commas.
\<close>

fun rename_roms ::
  "bool \<Rightarrow> string \<Rightarrow> string list \<Rightarrow> dir \<Rightarrow> dir \<times> action list \<times> error option" where
  "rename_roms dry_run p [] d = (d, [], None)"
| "rename_roms dry_run p (f # fs) d =
     (if is_rom (rom_exts p) f \<and> has_comma f
      then (if \<not> dry_run \<and> bad_target (remove_commas f) then (d, [], Some OSError)
            else (case rename_roms dry_run p fs
                         (if dry_run then d else rename f (remove_commas f) d) of
                    (d', acts, e) \<Rightarrow> (d', RenameRom p f (remove_commas f) # acts, e)))
      else rename_roms dry_run p fs d)"

text \<open>The loop over the listing of \<open>images/\<close>: every file whose name has a comma.\<close>

fun rename_images ::
  "bool \<Rightarrow> string \<Rightarrow> string list \<Rightarrow> dir \<Rightarrow> dir \<times> action list \<times> error option" where
  "rename_images dry_run p [] d = (d, [], None)"
| "rename_images dry_run p (f # fs) d =
     (if has_comma f
      then (if \<not> dry_run \<and> bad_target (remove_commas f) then (d, [], Some OSError)
            else (case rename_images dry_run p fs
                         (if dry_run then d else rename f (remove_commas f) d) of
                    (d', acts, e) \<Rightarrow> (d', RenameImage p f (remove_commas f) # acts, e)))
      else rename_images dry_run p fs d)"

text \<open>Step 1 for one platform: the ROMs, then, unless that raised, \<open>images/\<close>.\<close>

definition etape1_platform ::
  "bool \<Rightarrow> string \<Rightarrow> platform_dir \<Rightarrow> platform_dir \<times> action list \<times> error option" where
  "etape1_platform dry_run p d =
     (case rename_roms dry_run p (names (files d)) (files d) of
        (fs', a1, Some e) \<Rightarrow> (d\<lparr>files := fs'\<rparr>, a1, Some e)
      | (fs', a1, None) \<Rightarrow>
          (case images d of
             None \<Rightarrow> (d\<lparr>files := fs'\<rparr>, a1, None)
           | Some im \<Rightarrow>
               (case rename_images dry_run p (names im) im of
                  (im', a2, e) \<Rightarrow> (d\<lparr>files := fs', images := Some im'\<rparr>, a1 @ a2, e))))"

text \<open>Step 1 for the platforms whose directory exists, up to the first exception.\<close>

fun etape1 :: "bool \<Rightarrow> string list \<Rightarrow> volume \<Rightarrow> volume \<times> action list \<times> error option" where
  "etape1 dry_run [] v = (v, [], None)"
| "etape1 dry_run (p # ps) v =
     (case platform_dirs v p of
        None \<Rightarrow> etape1 dry_run ps v
      | Some d \<Rightarrow>
          (case etape1_platform dry_run p d of
             (d', a, Some e) \<Rightarrow> (v\<lparr>platform_dirs := (platform_dirs v)(p \<mapsto> d')\<rparr>, a, Some e)
           | (d', a, None) \<Rightarrow>
               (case etape1 dry_run ps (v\<lparr>platform_dirs := (platform_dirs v)(p \<mapsto> d')\<rparr>) of
                  (v', acts, e) \<Rightarrow> (v', a @ acts, e))))"

subsection \<open>Step 2: ROMs, images and CSV of one platform\<close>

text \<open>\<open>images/\<close> is created when it does not exist and there are ROMs.\<close>

definition create_images_dir ::
  "bool \<Rightarrow> string \<Rightarrow> string list \<Rightarrow> platform_dir \<Rightarrow> platform_dir \<times> action list" where
  "create_images_dir dry_run p rom_files d =
     (if images d = None \<and> rom_files \<noteq> []
      then ((if dry_run then d else d\<lparr>images := Some []\<rparr>), [CreateImagesDir p])
      else (d, []))"

text \<open>
  The inner loop of the association: the ROM not yet used with the highest score
  against the image stem; a later ROM replaces the best one only with a strictly higher
  score, and the best score starts at 0.
\<close>

fun best_rom :: "string list \<Rightarrow> string list \<Rightarrow> string \<Rightarrow> string option \<times> nat \<Rightarrow> string option \<times> nat" where
  "best_rom [] used_roms img_stem best = best"
| "best_rom (rom # roms) used_roms img_stem (best_match, best_score) =
     (if rom \<in> set used_roms then best_rom roms used_roms img_stem (best_match, best_score)
      else (let score = match_score (path_stem rom) img_stem
            in if best_score < score then best_rom roms used_roms img_stem (Some rom, score)
               else best_rom roms used_roms img_stem (best_match, best_score)))"

text \<open>
  \<open>shutil.copy2(img, images/target)\<close> followed by \<open>img.unlink()\<close>, inside \<open>try\<close>: when the
  copy cannot be made (no source, no \<open>images/\<close>) the exception is caught and nothing
  changes.
\<close>

definition move_image :: "string \<Rightarrow> string \<Rightarrow> platform_dir \<Rightarrow> platform_dir" where
  "move_image img target_name d =
     (case (map_of (files d) img, images d) of
        (Some text, Some im) \<Rightarrow>
          d\<lparr>files := unlink img (files d), images := Some (write_file target_name text im)\<rparr>
      | _ \<Rightarrow> d)"

fun move_images ::
  "bool \<Rightarrow> string \<Rightarrow> string list \<Rightarrow> string list \<Rightarrow> string list \<Rightarrow> platform_dir
     \<Rightarrow> platform_dir \<times> action list" where
  "move_images dry_run p rom_files [] used_roms d = (d, [])"
| "move_images dry_run p rom_files (img # imgs) used_roms d =
     (case best_rom rom_files used_roms (path_stem img) (None, 0) of
        (Some best_match, best_score) \<Rightarrow>
          (if 1 \<le> best_score
           then (case move_images dry_run p rom_files imgs (best_match # used_roms)
                        (if dry_run then d
                         else move_image img (path_stem best_match @ ''.png'') d) of
                   (d', acts) \<Rightarrow>
                     (d', MoveImage p img (path_stem best_match @ ''.png'') best_score # acts))
           else move_images dry_run p rom_files imgs used_roms d)
      | (None, best_score) \<Rightarrow> move_images dry_run p rom_files imgs used_roms d)"

text \<open>
  Duplicates: \<open>zip_stems\<close> are the stems of the ROMs whose suffix is exactly \<open>.zip\<close>; a
  ROM with another suffix and a stem among them is deleted.
\<close>

definition zip_stems :: "string list \<Rightarrow> string list" where
  "zip_stems rom_files = map path_stem (filter (\<lambda>f. path_suffix f = ''.zip'') rom_files)"

definition is_duplicate :: "string list \<Rightarrow> string \<Rightarrow> bool" where
  "is_duplicate zs rom = (path_suffix rom \<noteq> ''.zip'' \<and> path_stem rom \<in> set zs)"

fun prune_duplicates :: "bool \<Rightarrow> string \<Rightarrow> string list \<Rightarrow> string list \<Rightarrow> dir \<Rightarrow> dir \<times> action list" where
  "prune_duplicates dry_run p zs [] d = (d, [])"
| "prune_duplicates dry_run p zs (rom # roms) d =
     (if is_duplicate zs rom
      then (case prune_duplicates dry_run p zs roms (if dry_run then d else unlink rom d) of
              (d', acts) \<Rightarrow> (d', DeleteDuplicate p rom # acts))
      else prune_duplicates dry_run p zs roms d)"

text \<open>
  Orphan images. With ROMs: the loop over the listing of \<open>images/\<close> deletes the files
  whose stem is not the stem of a current ROM. Without ROMs and with a non-empty
  \<open>images/\<close>: every file is deleted.
\<close>

fun delete_orphans :: "bool \<Rightarrow> string \<Rightarrow> string list \<Rightarrow> string list \<Rightarrow> dir \<Rightarrow> dir \<times> action list" where
  "delete_orphans dry_run p valid_stems [] im = (im, [])"
| "delete_orphans dry_run p valid_stems (f # fs) im =
     (if path_stem f \<notin> set valid_stems
      then (case delete_orphans dry_run p valid_stems fs (if dry_run then im else unlink f im) of
              (im', acts) \<Rightarrow> (im', DeleteOrphan p f # acts))
      else delete_orphans dry_run p valid_stems fs im)"

fun delete_all :: "bool \<Rightarrow> string \<Rightarrow> string list \<Rightarrow> dir \<Rightarrow> dir \<times> action list" where
  "delete_all dry_run p [] im = (im, [])"
| "delete_all dry_run p (f # fs) im =
     (case delete_all dry_run p fs (if dry_run then im else unlink f im) of
        (im', acts) \<Rightarrow> (im', DeleteOrphan p f # acts))"

definition prune_orphans :: "bool \<Rightarrow> string \<Rightarrow> platform_dir \<Rightarrow> platform_dir \<times> action list" where
  "prune_orphans dry_run p d =
     (case images d of
        None \<Rightarrow> (d, [])
      | Some im \<Rightarrow>
          (let current_roms = get_roms (files d) (rom_exts p);
               valid_stems = map path_stem current_roms
           in if current_roms \<noteq> []
              then (case delete_orphans dry_run p valid_stems (names im) im of
                      (im', acts) \<Rightarrow> (d\<lparr>images := Some im'\<rparr>, acts))
              else if im \<noteq> [] \<and> 0 < length im
              then (case delete_all dry_run p (names im) im of
                      (im', acts) \<Rightarrow> (d\<lparr>images := Some im'\<rparr>, acts))
              else (d, [])))"

text \<open>
  The CSV: one line per current ROM, with the remainder stored in the old CSV or the
  default fields \<open>stem,stem\<close>; without ROMs an existing file is emptied.
\<close>

definition csv_line :: "(string \<Rightarrow> string option) \<Rightarrow> string \<Rightarrow> string" where
  "csv_line old_csv rom =
     (case old_csv rom of
        Some rest \<Rightarrow> rom @ '','' @ rest
      | None \<Rightarrow> rom @ '','' @ path_stem rom @ '','' @ path_stem rom)"

definition generate_csv :: "bool \<Rightarrow> string \<Rightarrow> platform_dir \<Rightarrow> platform_dir \<times> action list" where
  "generate_csv dry_run p d =
     (let current_roms = get_roms (files d) (rom_exts p);
          old_csv = load_csv (map_of (files d) ''filelist.csv'')
      in if current_roms \<noteq> []
         then (let csv_lines = map (csv_line old_csv) current_roms
               in ((if dry_run then d
                    else d\<lparr>files := write_file ''filelist.csv'' (lines_text csv_lines) (files d)\<rparr>),
                   [WriteCsv p csv_lines]))
         else if map_of (files d) ''filelist.csv'' \<noteq> None
         then ((if dry_run then d
                else d\<lparr>files := write_file ''filelist.csv'' [] (files d)\<rparr>),
               [TruncateCsv p])
         else (d, []))"

definition etape2_platform :: "bool \<Rightarrow> string \<Rightarrow> platform_dir \<Rightarrow> platform_dir \<times> action list" where
  "etape2_platform dry_run p d =
     (let rom_files = get_roms (files d) (rom_exts p);
          direct_images = get_images (files d)
      in case create_images_dir dry_run p rom_files d of
           (d1, a1) \<Rightarrow>
      (case (if direct_images \<noteq> [] \<and> rom_files \<noteq> []
             then move_images dry_run p rom_files direct_images [] d1
             else (d1, [])) of
           (d2, a2) \<Rightarrow>
      (case (if rom_files \<noteq> []
             then prune_duplicates dry_run p (zip_stems rom_files) rom_files (files d2)
             else (files d2, [])) of
           (fs3, a3) \<Rightarrow>
      (case prune_orphans dry_run p (d2\<lparr>files := fs3\<rparr>) of
           (d4, a4) \<Rightarrow>
      (case generate_csv dry_run p d4 of
           (d5, a5) \<Rightarrow> (d5, a1 @ a2 @ a3 @ a4 @ a5))))))"

text \<open>A loop over the platforms whose directory exists.\<close>

fun for_platforms ::
  "(string \<Rightarrow> platform_dir \<Rightarrow> platform_dir \<times> action list) \<Rightarrow> string list \<Rightarrow> volume
     \<Rightarrow> volume \<times> action list" where
  "for_platforms body [] v = (v, [])"
| "for_platforms body (p # ps) v =
     (case platform_dirs v p of
        None \<Rightarrow> for_platforms body ps v
      | Some d \<Rightarrow>
          (case body p d of
             (d', a) \<Rightarrow>
               (case for_platforms body ps (v\<lparr>platform_dirs := (platform_dirs v)(p \<mapsto> d')\<rparr>) of
                  (v', acts) \<Rightarrow> (v', a @ acts))))"

subsection \<open>Step 3: allfiles.lst\<close>

fun load_allfiles :: "string list \<Rightarrow> (string \<Rightarrow> string option) \<Rightarrow> (string \<Rightarrow> string option)" where
  "load_allfiles [] old_allfiles = old_allfiles"
| "load_allfiles (raw # raws) old_allfiles =
     (let line = strip raw
      in if line \<noteq> [] then load_allfiles raws (old_allfiles(first_field line \<mapsto> line))
         else load_allfiles raws old_allfiles)"

definition rom_key :: "string \<Rightarrow> string \<Rightarrow> string" where
  "rom_key p rom = p @ ''/'' @ rom"

text \<open>The parameter \<open>upper\<close> is \<open>str.upper\<close>.\<close>

definition allfiles_line ::
  "(string \<Rightarrow> string) \<Rightarrow> (string \<Rightarrow> string option) \<Rightarrow> string \<Rightarrow> string \<Rightarrow> string" where
  "allfiles_line upper old_allfiles p rom =
     (let key = rom_key p rom
      in case old_allfiles key of
           Some line \<Rightarrow> line
         | None \<Rightarrow>
             (let dn = path_stem rom; up = upper dn
              in key @ ''|'' @ dn @ ''|'' @ up @ ''|'' @ dn @ ''|'' @ dn))"

fun allfiles_lines ::
  "(string \<Rightarrow> string) \<Rightarrow> volume \<Rightarrow> (string \<Rightarrow> string option) \<Rightarrow> string list \<Rightarrow> string list" where
  "allfiles_lines upper v old_allfiles [] = []"
| "allfiles_lines upper v old_allfiles (p # ps) =
     (case platform_dirs v p of
        None \<Rightarrow> allfiles_lines upper v old_allfiles ps
      | Some d \<Rightarrow>
          map (allfiles_line upper old_allfiles p) (get_roms (files d) (rom_exts p))
          @ allfiles_lines upper v old_allfiles ps)"

definition etape3 :: "(string \<Rightarrow> string) \<Rightarrow> bool \<Rightarrow> volume \<Rightarrow> volume \<times> action list" where
  "etape3 upper dry_run v =
     (case cubegm v ''allfiles.lst'' of
        None \<Rightarrow> (v, [])
      | Some text \<Rightarrow>
          (let old_allfiles = load_allfiles (file_lines text) Map.empty;
               new_lines = allfiles_lines upper v old_allfiles platforms
           in ((if dry_run then v
                else v\<lparr>cubegm := (cubegm v)(''allfiles.lst'' \<mapsto> lines_text new_lines)\<rparr>),
               [WriteAllfiles new_lines])))"

subsection \<open>Step 4: favorites.lst and recent.lst\<close>

fun valid_roms :: "volume \<Rightarrow> string list \<Rightarrow> string list" where
  "valid_roms v [] = []"
| "valid_roms v (p # ps) =
     (case platform_dirs v p of
        None \<Rightarrow> valid_roms v ps
      | Some d \<Rightarrow> map (rom_key p) (get_roms (files d) (rom_exts p)) @ valid_roms v ps)"

definition list_lines :: "string \<Rightarrow> string list" where
  "list_lines text = filter (\<lambda>l. l \<noteq> []) (map strip (file_lines text))"

definition kept_lines :: "string list \<Rightarrow> string list \<Rightarrow> string list" where
  "kept_lines valid ls = filter (\<lambda>line. first_field line \<in> set valid) ls"

definition list_text :: "string list \<Rightarrow> string" where
  "list_text kept = (if kept \<noteq> [] then lines_text kept else [])"

fun clean_lists :: "bool \<Rightarrow> string list \<Rightarrow> string list \<Rightarrow> volume \<Rightarrow> volume \<times> action list" where
  "clean_lists dry_run valid [] v = (v, [])"
| "clean_lists dry_run valid (lst_name # lst_names) v =
     (case cubegm v lst_name of
        None \<Rightarrow> clean_lists dry_run valid lst_names v
      | Some text \<Rightarrow>
          (let kept = kept_lines valid (list_lines text)
           in case clean_lists dry_run valid lst_names
                     (if dry_run then v
                      else v\<lparr>cubegm := (cubegm v)(lst_name \<mapsto> list_text kept)\<rparr>) of
                (v', acts) \<Rightarrow> (v', WriteList lst_name kept # acts)))"

definition etape4 :: "bool \<Rightarrow> volume \<Rightarrow> volume \<times> action list" where
  "etape4 dry_run v =
     clean_lists dry_run (valid_roms v platforms) [''favorites.lst'', ''recent.lst''] v"

subsection \<open>Summary and the whole run\<close>

text \<open>
  One summary line per platform directory: the number of ROMs, of non-blank lines of
  \<open>filelist.csv\<close> and of files in \<open>images/\<close>, and the status.
\<close>

definition csv_count :: "string option \<Rightarrow> nat" where
  "csv_count csv =
     (case csv of
        None \<Rightarrow> 0
      | Some text \<Rightarrow> length (filter (\<lambda>l. strip l \<noteq> []) (file_lines text)))"

definition status_of :: "nat \<Rightarrow> nat \<Rightarrow> nat \<Rightarrow> string" where
  "status_of rom_count csv_n img_count =
     (if rom_count = 0 \<and> img_count = 0 then ''VIDE''
      else if rom_count = 0 then ''PAS DE ROMS''
      else if rom_count = csv_n \<and> csv_n = img_count then ''OK''
      else ''MISMATCH'')"

fun resume :: "volume \<Rightarrow> string list \<Rightarrow> (string \<times> nat \<times> nat \<times> nat \<times> string) list" where
  "resume v [] = []"
| "resume v (p # ps) =
     (case platform_dirs v p of
        None \<Rightarrow> resume v ps
      | Some d \<Rightarrow>
          (let rom_count = length (get_roms (files d) (rom_exts p));
               img_count = (case images d of None \<Rightarrow> 0 | Some im \<Rightarrow> length im);
               csv_n = csv_count (map_of (files d) ''filelist.csv'')
           in (p, rom_count, csv_n, img_count, status_of rom_count csv_n img_count)
              # resume v ps))"

text \<open>
  The result of a run: the volume it leaves, its log, the summary it prints at its end
  and the exception that ended it before, if one did. Of the calls of the script outside
  a \<open>try\<close> block, the renames of step 1 are the ones followed here to their failure, on
  the names that leave them no target; a run they stop prints no summary.
\<close>

record outcome =
  final :: volume
  actions :: "action list"
  summary :: "(string \<times> nat \<times> nat \<times> nat \<times> string) list"
  raised :: "error option"

definition sync_sd_card :: "(string \<Rightarrow> string) \<Rightarrow> volume \<Rightarrow> bool \<Rightarrow> outcome" where
  "sync_sd_card upper root dry_run =
     (case etape1 dry_run platforms root of
        (v1, a1, Some e) \<Rightarrow> \<lparr>final = v1, actions = a1, summary = [], raised = Some e\<rparr>
      | (v1, a1, None) \<Rightarrow>
     (case for_platforms (etape2_platform dry_run) platforms v1 of
        (v2, a2) \<Rightarrow>
     (case etape3 upper dry_run v2 of
        (v3, a3) \<Rightarrow>
     (case etape4 dry_run v3 of
        (v4, a4) \<Rightarrow>
          \<lparr>final = v4, actions = a1 @ a2 @ a3 @ a4, summary = resume v4 platforms,
           raised = None\<rparr>))))"

section \<open>Notions for the statements and proofs\<close>

text \<open>The directory after a rename loop of step 1, for the files selected by \<open>P\<close>.\<close>

definition rename_all :: "(string \<Rightarrow> bool) \<Rightarrow> string list \<Rightarrow> dir \<Rightarrow> dir" where
  "rename_all P fs d = fold (\<lambda>f d. if P f then rename f (remove_commas f) d else d) fs d"

text \<open>The files of \<open>images/\<close>, none when the sub-directory does not exist.\<close>

definition the_images :: "platform_dir \<Rightarrow> dir" where
  "the_images d = (case images d of None \<Rightarrow> [] | Some im \<Rightarrow> im)"

text \<open>
  Step 2 of a platform, cut into its parts: the directory after the creation of
  \<open>images/\<close>, the moves, the duplicate loop, and the directory before and after the
  orphan step.
\<close>

definition step2_dir1 :: "bool \<Rightarrow> string \<Rightarrow> platform_dir \<Rightarrow> platform_dir" where
  "step2_dir1 dry_run p d = fst (create_images_dir dry_run p (get_roms (files d) (rom_exts p)) d)"

definition step2_moves :: "bool \<Rightarrow> string \<Rightarrow> platform_dir \<Rightarrow> platform_dir \<times> action list" where
  "step2_moves dry_run p d =
     (if get_images (files d) \<noteq> [] \<and> get_roms (files d) (rom_exts p) \<noteq> []
      then move_images dry_run p (get_roms (files d) (rom_exts p)) (get_images (files d)) []
             (step2_dir1 dry_run p d)
      else (step2_dir1 dry_run p d, []))"

definition step2_dups :: "bool \<Rightarrow> string \<Rightarrow> platform_dir \<Rightarrow> dir \<times> action list" where
  "step2_dups dry_run p d =
     (if get_roms (files d) (rom_exts p) \<noteq> []
      then prune_duplicates dry_run p (zip_stems (get_roms (files d) (rom_exts p)))
             (get_roms (files d) (rom_exts p)) (files (fst (step2_moves dry_run p d)))
      else (files (fst (step2_moves dry_run p d)), []))"

definition step2_dir3 :: "bool \<Rightarrow> string \<Rightarrow> platform_dir \<Rightarrow> platform_dir" where
  "step2_dir3 dry_run p d = (fst (step2_moves dry_run p d))\<lparr>files := fst (step2_dups dry_run p d)\<rparr>"

definition step2_dir4 :: "bool \<Rightarrow> string \<Rightarrow> platform_dir \<Rightarrow> platform_dir" where
  "step2_dir4 dry_run p d = fst (prune_orphans dry_run p (step2_dir3 dry_run p d))"

text \<open>
  The actions that change which ROMs and image names the later steps of a run see: the
  renames of step 1 and the deletion of a duplicate.
\<close>

fun disturbs :: "action \<Rightarrow> bool" where
  "disturbs (RenameRom p f g) = True"
| "disturbs (RenameImage p f g) = True"
| "disturbs (DeleteDuplicate p f) = True"
| "disturbs a = False"

text \<open>The ROMs of a platform as the catalog steps list them.\<close>

definition rom_listing :: "volume \<Rightarrow> string \<Rightarrow> string list option" where
  "rom_listing v p = map_option (\<lambda>d. get_roms (files d) (rom_exts p)) (platform_dirs v p)"

section \<open>Example volumes\<close>

text \<open>A Game Boy directory with a raw dump and an archive of the same game.\<close>

definition vol_zelda :: volume where
  "vol_zelda =
     \<lparr>platform_dirs = [''GB'' \<mapsto> \<lparr>files = [(''zelda.gb'', ''raw''), (''zelda.zip'', ''zip'')],
                                  images = None\<rparr>],
      cubegm = Map.empty\<rparr>"

text \<open>The same directory with a third ROM.\<close>

definition dir_zelda :: platform_dir where
  "dir_zelda = \<lparr>files = [(''zelda.gb'', ''raw''), (''zelda.zip'', ''zip''), (''tetris.gb'', ''t'')], images = None\<rparr>"

text \<open>A ROM with its cover and an orphan image.\<close>

definition vol_mario :: volume where
  "vol_mario =
     \<lparr>platform_dirs = [''GB'' \<mapsto> \<lparr>files = [(''mario.zip'', ''rom'')],
                                  images = Some [(''mario.png'', ''cover''), (''ghost.png'', ''boo'')]\<rparr>],
      cubegm = Map.empty\<rparr>"

definition dir_mario :: platform_dir where
  "dir_mario = \<lparr>files = [(''mario.zip'', ''rom'')],
                images = Some [(''mario.png'', ''cover''), (''ghost.png'', ''boo'')]\<rparr>"

text \<open>Directories with a hand-edited CSV, with and without ROMs.\<close>

definition dir_game :: platform_dir where
  "dir_game = \<lparr>files = [(''new.zip'', ''n''), (''game.zip'', ''g''),
                         (''filelist.csv'', ''game.zip,Custom Name,CustomRegion\<newline>gone.zip,Gone,X\<newline>'')],
               images = Some []\<rparr>"

definition dir_empty_csv :: platform_dir where
  "dir_empty_csv = \<lparr>files = [(''filelist.csv'', ''gone.zip,Gone,X\<newline>'')], images = None\<rparr>"

text \<open>A platform directory with commas in a ROM, a loose image and a file of \<open>images/\<close>.\<close>

definition dir_comma :: platform_dir where
  "dir_comma = \<lparr>files = [(''zelda.zip'', ''z''), (''ma,rio.png'', ''pic''), (''te,tris.gb'', ''t'')],
                images = Some [(''a,b.png'', ''ab'')]\<rparr>"

definition vol_comma :: volume where
  "vol_comma = \<lparr>platform_dirs = [''GB'' \<mapsto> dir_comma], cubegm = Map.empty\<rparr>"

text \<open>A platform directory with a file of \<open>images/\<close> whose name is a lone comma.\<close>

definition dir_bare_comma :: platform_dir where
  "dir_bare_comma = \<lparr>files = [(''zelda.zip'', ''z'')],
                     images = Some [(''a,b.png'', ''ab''), ('','', ''x''), (''c,d.png'', ''cd'')]\<rparr>"

definition vol_bare_comma :: volume where
  "vol_bare_comma = \<lparr>platform_dirs = [''GB'' \<mapsto> dir_bare_comma], cubegm = Map.empty\<rparr>"


text \<open>A platform directory with archives whose suffix is written in upper case.\<close>

definition dir_upper_zip :: platform_dir where
  "dir_upper_zip = \<lparr>files = [(''zelda.gb'', ''raw''), (''zelda.ZIP'', ''zip''),
                              (''link.zip'', ''a''), (''link.ZIP'', ''b'')],
                    images = Some []\<rparr>"

definition vol_upper_zip :: volume where
  "vol_upper_zip = \<lparr>platform_dirs = [''GB'' \<mapsto> dir_upper_zip], cubegm = Map.empty\<rparr>"


section \<open>Dry run\<close>

text \<open>The loops of step 1 in a dry run: the directory as it was, the log, no exception.\<close>

lemma rename_roms_dry:
  "rename_roms True p fs d
     = (d, map (\<lambda>f. RenameRom p f (remove_commas f))
             (filter (\<lambda>f. is_rom (rom_exts p) f \<and> has_comma f) fs), None)"
  by (induction fs) simp_all

lemma rename_images_dry:
  "rename_images True p fs d
     = (d, map (\<lambda>f. RenameImage p f (remove_commas f)) (filter has_comma fs), None)"
  by (induction fs) simp_all

lemma etape1_platform_dry_eq:
  "etape1_platform True p d
     = (d, map (\<lambda>f. RenameRom p f (remove_commas f))
             (filter (\<lambda>f. is_rom (rom_exts p) f \<and> has_comma f) (names (files d)))
           @ (case images d of
                None \<Rightarrow> []
              | Some im \<Rightarrow> map (\<lambda>f. RenameImage p f (remove_commas f))
                             (filter has_comma (names im))), None)"
  by (cases "images d") (simp_all add: etape1_platform_def rename_roms_dry rename_images_dry)

lemma etape1_platform_dry: "fst (etape1_platform True p d) = d"
  by (simp add: etape1_platform_dry_eq)

lemma etape1_dry: "fst (etape1 True ps v) = v \<and> snd (snd (etape1 True ps v)) = None"
proof (induction ps)
  case Nil
  show ?case by simp
next
  case (Cons p ps)
  show ?case
  proof (cases "platform_dirs v p")
    case None
    then show ?thesis using Cons.IH by simp
  next
    case (Some d)
    then have "v\<lparr>platform_dirs := (platform_dirs v)(p \<mapsto> d)\<rparr> = v"
      by (simp add: map_upd_triv)
    then show ?thesis
      using Some Cons.IH by (simp add: etape1_platform_dry_eq case_prod_beta)
  qed
qed

lemma move_images_dry: "move_images True p roms imgs used d = (d', acts) \<Longrightarrow> d' = d"
  by (induction imgs arbitrary: used d acts) (auto split: prod.splits option.splits if_splits)

lemma prune_duplicates_dry: "prune_duplicates True p zs roms d = (d', acts) \<Longrightarrow> d' = d"
  by (induction roms arbitrary: d acts) (auto split: prod.splits if_splits)

lemma delete_orphans_dry: "delete_orphans True p valid fs im = (im', acts) \<Longrightarrow> im' = im"
  by (induction fs arbitrary: im acts) (auto split: prod.splits if_splits)

lemma delete_all_dry: "delete_all True p fs im = (im', acts) \<Longrightarrow> im' = im"
  by (induction fs arbitrary: im acts) (auto split: prod.splits if_splits)

lemma prune_orphans_dry: "prune_orphans True p d = (d', acts) \<Longrightarrow> d' = d"
  by (auto simp: prune_orphans_def Let_def split: prod.splits option.splits if_splits
      dest!: delete_orphans_dry delete_all_dry)

lemma generate_csv_dry: "generate_csv True p d = (d', acts) \<Longrightarrow> d' = d"
  by (auto simp: generate_csv_def Let_def split: if_splits)

lemma create_images_dir_dry: "create_images_dir True p roms d = (d', acts) \<Longrightarrow> d' = d"
  by (auto simp: create_images_dir_def split: if_splits)

lemma etape2_platform_dry: "fst (etape2_platform True p d) = d"
  by (auto simp: etape2_platform_def Let_def split: prod.splits if_splits
      dest!: create_images_dir_dry move_images_dry prune_duplicates_dry
             prune_orphans_dry generate_csv_dry)

text \<open>A loop body that leaves every platform directory as it is leaves the volume as it is.\<close>

lemma for_platforms_frame:
  assumes "\<And>p d. fst (body p d) = d"
  shows "fst (for_platforms body ps v) = v"
proof (induction ps arbitrary: v)
  case Nil
  show ?case by simp
next
  case (Cons p ps)
  show ?case
  proof (cases "platform_dirs v p")
    case None
    then show ?thesis using Cons.IH by simp
  next
    case (Some d)
    obtain d' a where b: "body p d = (d', a)" by fastforce
    with assms[of p d] have "d' = d" by simp
    then have "v\<lparr>platform_dirs := (platform_dirs v)(p \<mapsto> d')\<rparr> = v"
      using Some by (simp add: map_upd_triv)
    then show ?thesis using Some b Cons.IH[of v] by (auto split: prod.splits)
  qed
qed

lemma etape3_dry: "fst (etape3 up True v) = v"
  by (simp add: etape3_def Let_def split: option.splits)

lemma clean_lists_dry: "clean_lists True valid ns v = (v', acts) \<Longrightarrow> v' = v"
  by (induction ns arbitrary: v acts) (auto simp: Let_def split: prod.splits option.splits)

lemma etape4_dry: "fst (etape4 True v) = v"
  unfolding etape4_def by (metis clean_lists_dry prod.collapse)

text \<open>
  C1. For every starting volume, a dry run (\<open>dry_run = True\<close>, the default) ends with
  the volume it started from: nothing is created, renamed, moved, deleted, truncated or
  written.
\<close>

theorem dry_run_no_mutation: "final (sync_sd_card up v True) = v"
proof -
  have 2: "fst (for_platforms (etape2_platform True) platforms v) = v"
    by (rule for_platforms_frame) (rule etape2_platform_dry)
  obtain v1 a1 e1 where s1: "etape1 True platforms v = (v1, a1, e1)"
    by (cases "etape1 True platforms v") auto
  with etape1_dry[of platforms v] have v1: "v1 = v" "e1 = None" by simp_all
  obtain v2 a2 where s2: "for_platforms (etape2_platform True) platforms v = (v2, a2)"
    by fastforce
  with 2 have v2: "v2 = v" by simp
  obtain v3 a3 where s3: "etape3 up True v = (v3, a3)" by fastforce
  with etape3_dry[of up v] have v3: "v3 = v" by simp
  obtain v4 a4 where s4: "etape4 True v = (v4, a4)" by fastforce
  with etape4_dry[of v] have v4: "v4 = v" by simp
  show ?thesis
    using s1 s2 s3 s4 v1 v2 v3 v4 by (simp add: sync_sd_card_def)
qed

theorem dry_run_no_mutation_witness:
  "platform_dirs (final (sync_sd_card ascii_upper vol_zelda True)) ''GB''
     = Some \<lparr>files = [(''zelda.gb'', ''raw''), (''zelda.zip'', ''zip'')], images = None\<rparr>"
  using dry_run_no_mutation [of ascii_upper vol_zelda] by (simp add: vol_zelda_def)

section \<open>Name matcher\<close>

lemma inner_scan_eq:
  "inner_scan rw iws score = (if \<exists>iw\<in>set iws. token_hit rw iw then score + 1 else score)"
  by (induction iws) auto

lemma outer_scan_eq:
  "outer_scan rws iws score
     = score + length (filter (\<lambda>rw. \<exists>iw\<in>set iws. token_hit rw iw) rws)"
  by (induction rws arbitrary: score) (auto simp: inner_scan_eq)

lemma match_score_card:
  "match_score a b
     = card {rw \<in> set (findall (lower a)). \<exists>iw\<in>set (findall (lower b)). token_hit rw iw}"
proof -
  let ?R = "remdups (findall (lower a))" and ?I = "remdups (findall (lower b))"
  have "distinct (filter (\<lambda>rw. \<exists>iw\<in>set ?I. token_hit rw iw) ?R)"
    by simp
  then have "length (filter (\<lambda>rw. \<exists>iw\<in>set ?I. token_hit rw iw) ?R)
          = card (set (filter (\<lambda>rw. \<exists>iw\<in>set ?I. token_hit rw iw) ?R))"
    by (rule distinct_card [symmetric])
  also have "\<dots> = card {rw \<in> set (findall (lower a)). \<exists>iw\<in>set (findall (lower b)). token_hit rw iw}"
    by simp
  finally have len: "length (filter (\<lambda>rw. \<exists>iw\<in>set ?I. token_hit rw iw) ?R)
      = card {rw \<in> set (findall (lower a)). \<exists>iw\<in>set (findall (lower b)). token_hit rw iw}" .
  show ?thesis
  proof (cases "?R = [] \<or> ?I = []")
    case True
    then have "{rw \<in> set (findall (lower a)). \<exists>iw\<in>set (findall (lower b)). token_hit rw iw} = {}"
      by auto
    with True show ?thesis by (simp add: match_score_def Let_def)
  next
    case False
    then show ?thesis using len by (simp add: match_score_def Let_def outer_scan_eq)
  qed
qed

text \<open>The runs found by the scan are the maximal runs of length at least 2.\<close>

lemma takeWhile_maximal:
  assumes "\<forall>c\<in>set w. P c" "post = [] \<or> \<not> P (hd post)"
  shows "takeWhile P (w @ post) = w"
  using assms by (cases post) (auto simp: takeWhile_append)

lemma is_token_skip:
  assumes "\<not> is_word_char c"
  shows "is_token (c # cs) w \<longleftrightarrow> is_token cs w"
proof
  assume "is_token (c # cs) w"
  then obtain pre post where h: "c # cs = pre @ w @ post" "2 \<le> length w"
      "\<forall>c\<in>set w. is_word_char c" "pre = [] \<or> \<not> is_word_char (last pre)"
      "post = [] \<or> \<not> is_word_char (hd post)"
    unfolding is_token_def by blast
  have "pre \<noteq> []"
  proof
    assume "pre = []"
    with h(1,2) have "c = hd w" "w \<noteq> []" by (cases w; auto)+
    with h(3) assms show False by auto
  qed
  then obtain pre' where p: "pre = c # pre'" using h(1) by (cases pre) auto
  with h(1) have cs: "cs = pre' @ w @ post" by simp
  have "pre' = [] \<or> \<not> is_word_char (last pre')" using h(4) p by (cases pre') auto
  with cs h show "is_token cs w" unfolding is_token_def by blast
next
  assume "is_token cs w"
  then obtain pre post where h: "cs = pre @ w @ post" "2 \<le> length w"
      "\<forall>c\<in>set w. is_word_char c" "pre = [] \<or> \<not> is_word_char (last pre)"
      "post = [] \<or> \<not> is_word_char (hd post)"
    unfolding is_token_def by blast
  have "c # cs = (c # pre) @ w @ post" using h(1) by simp
  moreover have "c # pre = [] \<or> \<not> is_word_char (last (c # pre))"
    using h(4) assms by auto
  ultimately show "is_token (c # cs) w" using h(2,3,5) unfolding is_token_def by blast
qed

lemma is_token_run:
  assumes run: "\<forall>c\<in>set run. is_word_char c" "run \<noteq> []"
      and rest: "rest = [] \<or> \<not> is_word_char (hd rest)"
  shows "is_token (run @ rest) w \<longleftrightarrow> (w = run \<and> 2 \<le> length run) \<or> is_token rest w"
proof
  assume "is_token (run @ rest) w"
  then obtain pre post where h: "run @ rest = pre @ w @ post" "2 \<le> length w"
      "\<forall>c\<in>set w. is_word_char c" "pre = [] \<or> \<not> is_word_char (last pre)"
      "post = [] \<or> \<not> is_word_char (hd post)"
    unfolding is_token_def by blast
  obtain us where us: "run = pre @ us \<and> us @ rest = w @ post \<or> run @ us = pre \<and> rest = us @ w @ post"
    using h(1) append_eq_append_conv2[of run rest pre "w @ post"] by blast
  then consider (a) us where "run = pre @ us" "us @ rest = w @ post" "us \<noteq> []"
    | (b) us where "run @ us = pre" "rest = us @ w @ post"
    by (cases "us = []") auto
  then show "(w = run \<and> 2 \<le> length run) \<or> is_token rest w"
  proof cases
    case a
    have "pre = []"
    proof (rule ccontr)
      assume "pre \<noteq> []"
      then have "last pre \<in> set run" using a(1) by auto
      with run(1) h(4) \<open>pre \<noteq> []\<close> show False by auto
    qed
    with a have eq: "run @ rest = w @ post" by simp
    have "takeWhile is_word_char (run @ rest) = run"
      using run(1) rest by (rule takeWhile_maximal)
    moreover have "takeWhile is_word_char (w @ post) = w"
      using h(3,5) by (rule takeWhile_maximal)
    ultimately have "w = run" using eq by simp
    with h(2) show ?thesis by simp
  next
    case b
    have "us \<noteq> []"
    proof
      assume "us = []"
      with b(1) have "pre = run" by simp
      with run h(4) show False by auto
    qed
    then have "last pre = last us" using b(1) by auto
    with h(4) \<open>us \<noteq> []\<close> b(1) have "us = [] \<or> \<not> is_word_char (last us)" by auto
    with b(2) h(2,3,5) show ?thesis unfolding is_token_def by blast
  qed
next
  assume "(w = run \<and> 2 \<le> length run) \<or> is_token rest w"
  then show "is_token (run @ rest) w"
  proof
    assume "w = run \<and> 2 \<le> length run"
    then have "run @ rest = [] @ w @ rest" "2 \<le> length w" by simp_all
    with run(1) rest \<open>w = run \<and> 2 \<le> length run\<close> show ?thesis
      unfolding is_token_def by blast
  next
    assume "is_token rest w"
    then obtain pre post where h: "rest = pre @ w @ post" "2 \<le> length w"
        "\<forall>c\<in>set w. is_word_char c" "pre = [] \<or> \<not> is_word_char (last pre)"
        "post = [] \<or> \<not> is_word_char (hd post)"
      unfolding is_token_def by blast
    have "pre \<noteq> []"
    proof
      assume "pre = []"
      with h(1,2) have "hd rest = hd w" "w \<noteq> []" "rest \<noteq> []" by (cases w; auto)+
      with h(3) rest show False by auto
    qed
    then have "last (run @ pre) = last pre" by simp
    with h(4) \<open>pre \<noteq> []\<close> have "run @ pre = [] \<or> \<not> is_word_char (last (run @ pre))" by auto
    moreover have "run @ rest = (run @ pre) @ w @ post" using h(1) by simp
    ultimately show ?thesis using h(2,3,5) unfolding is_token_def by blast
  qed
qed

lemma is_token_Nil: "\<not> is_token [] w"
  by (auto simp: is_token_def)

lemma findall_tokens: "w \<in> set (findall s) \<longleftrightarrow> is_token s w"
proof (induction s rule: findall.induct)
  case 1
  show ?case by (simp add: is_token_Nil)
next
  case (2 c cs)
  show ?case
  proof (cases "is_word_char c")
    case False
    with 2 show ?thesis by (simp add: is_token_skip)
  next
    case True
    let ?run = "takeWhile is_word_char (c # cs)" and ?rest = "dropWhile is_word_char (c # cs)"
    have split: "c # cs = ?run @ ?rest" by simp
    have r1: "\<forall>x\<in>set ?run. is_word_char x" by (meson set_takeWhileD)
    have r2: "?run \<noteq> []" using True by simp
    have r3: "?rest = [] \<or> \<not> is_word_char (hd ?rest)" by (metis hd_dropWhile)
    have tok: "is_token (c # cs) w \<longleftrightarrow> (w = ?run \<and> 2 \<le> length ?run) \<or> is_token ?rest w"
      using is_token_run[OF r1 r2 r3, of w] split by metis
    have ih: "w \<in> set (findall ?rest) \<longleftrightarrow> is_token ?rest w"
      using 2(1)[OF True refl refl] 2(2)[OF True refl refl] by (cases "2 \<le> length ?run") auto
    show ?thesis
      using True tok ih by (auto simp: Let_def simp del: takeWhile.simps dropWhile.simps)
  qed
qed

text \<open>
  C4. \<open>match_score\<close> cuts each name, lower-cased, into the set of its maximal runs of
  \<open>[a-z0-9]\<close> of length at least 2, and returns the number of tokens of the first name
  for which some token of the second name is equal to it, contained in it or contains
  it; each token of the first name is compared with all tokens of the second name. The
  score is 0 when one of the names has no token. The score of \<open>super_mario_bros\<close>
  against \<open>Super Mario Bros (E)\<close> is 3.
\<close>

theorem match_score_spec:
  "match_score rom_name img_name
     = card {rw. is_token (lower rom_name) rw \<and>
                 (\<exists>iw. is_token (lower img_name) iw \<and>
                       (rw = iw \<or> sublist rw iw \<or> sublist iw rw))}
   \<and> ((\<forall>w. \<not> is_token (lower rom_name) w) \<or> (\<forall>w. \<not> is_token (lower img_name) w)
        \<longrightarrow> match_score rom_name img_name = 0)
   \<and> match_score ''super_mario_bros'' ''Super Mario Bros (E)'' = 3"
proof (intro conjI impI)
  have "{rw \<in> set (findall (lower rom_name)).
           \<exists>iw\<in>set (findall (lower img_name)). token_hit rw iw}
        = {rw. is_token (lower rom_name) rw \<and>
               (\<exists>iw. is_token (lower img_name) iw \<and>
                     (rw = iw \<or> sublist rw iw \<or> sublist iw rw))}"
    by (auto simp: findall_tokens token_hit_def)
  then show "match_score rom_name img_name
     = card {rw. is_token (lower rom_name) rw \<and>
                 (\<exists>iw. is_token (lower img_name) iw \<and>
                       (rw = iw \<or> sublist rw iw \<or> sublist iw rw))}"
    by (simp add: match_score_card)
next
  assume "(\<forall>w. \<not> is_token (lower rom_name) w) \<or> (\<forall>w. \<not> is_token (lower img_name) w)"
  then have "findall (lower rom_name) = [] \<or> findall (lower img_name) = []"
    by (metis findall_tokens last_in_set)
  then show "match_score rom_name img_name = 0"
    by (auto simp: match_score_def)
next
  show "match_score ''super_mario_bros'' ''Super Mario Bros (E)'' = 3"
    by code_simp
qed

theorem match_score_spec_witness:
  "match_score ''mario'' ''Mario2 (E)'' = 1
   \<and> card {rw. is_token (lower ''mario'') rw \<and>
               (\<exists>iw. is_token (lower ''Mario2 (E)'') iw \<and>
                     (rw = iw \<or> sublist rw iw \<or> sublist iw rw))} = 1"
proof -
  have s: "match_score ''mario'' ''Mario2 (E)'' = 1"
    by code_simp
  have "match_score ''mario'' ''Mario2 (E)''
     = card {rw. is_token (lower ''mario'') rw \<and>
                 (\<exists>iw. is_token (lower ''Mario2 (E)'') iw \<and>
                       (rw = iw \<or> sublist rw iw \<or> sublist iw rw))}"
    using match_score_spec [of "''mario''" "''Mario2 (E)''"] by (rule conjunct1)
  with s show ?thesis by (simp only:)
qed

section \<open>Directories: files after each step\<close>

lemma map_of_unlink: "map_of (unlink n d) = (map_of d)(n := None)"
  by (simp add: unlink_def delete_conv')

lemma map_of_write_file: "map_of (write_file n c d) = (map_of d)(n \<mapsto> c)"
  by (simp add: write_file_def update_conv')

lemma unlink_filter: "unlink n d = filter (\<lambda>e. fst e \<noteq> n) d"
  by (induction d) (auto simp: unlink_def)

lemma names_unlink: "names (unlink n d) = filter (\<lambda>m. m \<noteq> n) (names d)"
  by (induction d) (auto simp: unlink_def names_def)

lemma names_write_file:
  "names (write_file n c d) = (if n \<in> set (names d) then names d else names d @ [n])"
  by (simp add: write_file_def names_def update_keys)

lemma get_roms_unlink: "get_roms (unlink n d) exts = filter (\<lambda>m. m \<noteq> n) (get_roms d exts)"
  by (simp add: get_roms_def names_unlink filter_sort) (metis filter_filter conj_commute)

lemma get_roms_write_file:
  "\<not> is_rom exts n \<Longrightarrow> get_roms (write_file n c d) exts = get_roms d exts"
  by (simp add: get_roms_def names_write_file)

lemma set_get_roms: "set (get_roms d exts) = {f \<in> set (names d). is_rom exts f}"
  by (auto simp: get_roms_def)

lemma rom_exts_cases:
  "e \<in> set (rom_exts p) \<Longrightarrow>
     e \<in> set [''.a26'', ''.a78'', ''.bin'', ''.zip'', ''.7z'', ''.nes'', ''.fds'', ''.gb'',
              ''.gba'', ''.gbc'', ''.gg'', ''.sms'', ''.fba'', ''.md'', ''.gen'', ''.smd'',
              ''.ngp'', ''.ngc'', ''.pce'', ''.img'', ''.iso'', ''.cue'', ''.pbp'', ''.chd'',
              ''.sfc'', ''.smc'']"
  by (auto simp: rom_exts_def ROM_EXT_MAP_def split: if_splits)

lemma rom_not_image: "is_rom (rom_exts p) f \<Longrightarrow> \<not> is_image f"
  by (auto simp: is_rom_def is_image_def IMG_EXTENSIONS_def dest!: rom_exts_cases)

lemma csv_suffix: "path_suffix ''filelist.csv'' = ''.csv''"
  by (simp add: path_suffix_def rfind_def)

lemma csv_not_rom: "\<not> is_rom (rom_exts p) ''filelist.csv''"
  by (auto simp: is_rom_def csv_suffix lower_def lower_char_def is_upper_def dest!: rom_exts_cases)

lemma csv_not_image: "\<not> is_image ''filelist.csv''"
  by (auto simp: is_image_def csv_suffix lower_def lower_char_def is_upper_def IMG_EXTENSIONS_def)


lemma prune_duplicates_actions:
  "snd (prune_duplicates dry_run p zs roms fs)
     = map (DeleteDuplicate p) (filter (is_duplicate zs) roms)"
  by (induction roms arbitrary: fs) (simp_all add: case_prod_beta)

lemma prune_duplicates_files:
  "fst (prune_duplicates False p zs roms fs)
     = filter (\<lambda>e. \<not> (fst e \<in> set roms \<and> is_duplicate zs (fst e))) fs"
proof (induction roms arbitrary: fs)
  case Nil
  show ?case by simp
next
  case (Cons rom roms)
  show ?case
  proof (cases "is_duplicate zs rom")
    case True
    have "fst (prune_duplicates False p zs (rom # roms) fs)
            = fst (prune_duplicates False p zs roms (unlink rom fs))"
      using True by (simp split: prod.splits)
    also have "\<dots> = filter (\<lambda>e. \<not> (fst e \<in> set roms \<and> is_duplicate zs (fst e)))
                        (filter (\<lambda>e. fst e \<noteq> rom) fs)"
      by (simp add: Cons.IH unlink_filter)
    also have "\<dots> = filter (\<lambda>e. \<not> (fst e \<in> set (rom # roms) \<and> is_duplicate zs (fst e))) fs"
      using True by (auto intro: filter_cong)
    finally show ?thesis .
  next
    case False
    have "fst (prune_duplicates False p zs (rom # roms) fs)
            = filter (\<lambda>e. \<not> (fst e \<in> set roms \<and> is_duplicate zs (fst e))) fs"
      using False by (simp add: Cons.IH)
    also have "\<dots> = filter (\<lambda>e. \<not> (fst e \<in> set (rom # roms) \<and> is_duplicate zs (fst e))) fs"
      using False by (auto intro: filter_cong)
    finally show ?thesis .
  qed
qed

lemma move_image_files:
  "files (move_image img t d) = files d \<or> files (move_image img t d) = unlink img (files d)"
  by (auto simp: move_image_def split: option.splits)

lemma move_images_files:
  "\<exists>M. M \<subseteq> set imgs \<and>
       files (fst (move_images dry_run p roms imgs used d))
         = filter (\<lambda>e. fst e \<notin> M) (files d)"
proof (induction imgs arbitrary: used d)
  case Nil
  have "files d = filter (\<lambda>e. fst e \<notin> {}) (files d)" by simp
  then show ?case by auto
next
  case (Cons img imgs)
  obtain bm bs where b: "best_rom roms used (path_stem img) (None, 0) = (bm, bs)"
    by fastforce
  show ?case
  proof (cases "\<exists>best. bm = Some best \<and> 1 \<le> bs")
    case False
    then have "move_images dry_run p roms (img # imgs) used d
                 = move_images dry_run p roms imgs used d"
      using b by (auto split: option.splits)
    moreover obtain M where "M \<subseteq> set imgs"
        "files (fst (move_images dry_run p roms imgs used d)) = filter (\<lambda>e. fst e \<notin> M) (files d)"
      using Cons.IH by blast
    ultimately show ?thesis by (metis set_subset_Cons subset_trans)
  next
    case True
    then obtain best where bm: "bm = Some best" "1 \<le> bs" by blast
    let ?d1 = "if dry_run then d else move_image img (path_stem best @ ''.png'') d"
    have eq: "fst (move_images dry_run p roms (img # imgs) used d)
                = fst (move_images dry_run p roms imgs (best # used) ?d1)"
      using b bm by (simp split: prod.splits)
    obtain M where M: "M \<subseteq> set imgs"
        "files (fst (move_images dry_run p roms imgs (best # used) ?d1))
           = filter (\<lambda>e. fst e \<notin> M) (files ?d1)"
      using Cons.IH by blast
    have "files ?d1 = files d \<or> files ?d1 = unlink img (files d)"
      using move_image_files by auto
    then show ?thesis
    proof
      assume "files ?d1 = files d"
      with M eq have "files (fst (move_images dry_run p roms (img # imgs) used d))
           = filter (\<lambda>e. fst e \<notin> M) (files d)" by simp
      with M(1) show ?thesis by (metis set_subset_Cons subset_trans)
    next
      assume "files ?d1 = unlink img (files d)"
      with M eq have "files (fst (move_images dry_run p roms (img # imgs) used d))
           = filter (\<lambda>e. fst e \<notin> M) (filter (\<lambda>e. fst e \<noteq> img) (files d))"
        by (simp add: unlink_filter)
      also have "\<dots> = filter (\<lambda>e. fst e \<notin> insert img M) (files d)"
        by (auto intro: filter_cong)
      finally show ?thesis using M(1)
        by (metis insert_subset list.set_intros(1) set_subset_Cons subset_trans)
    qed
  qed
qed

lemma create_images_dir_files: "files (fst (create_images_dir dry_run p roms d)) = files d"
  by (simp add: create_images_dir_def)

lemma prune_orphans_files: "files (fst (prune_orphans dry_run p d)) = files d"
  by (auto simp: prune_orphans_def Let_def split: option.splits prod.splits)

lemma generate_csv_files:
  "files (fst (generate_csv dry_run p d)) = files d
   \<or> (\<exists>c. files (fst (generate_csv dry_run p d)) = write_file ''filelist.csv'' c (files d))"
  by (auto simp: generate_csv_def Let_def)

text \<open>The files of a platform directory after step 2, up to the images moved and the CSV.\<close>

lemma etape2_platform_files:
  "\<exists>M fs3. M \<subseteq> set (get_images (files d)) \<and>
     fs3 = filter (\<lambda>e. \<not> (fst e \<in> set (get_roms (files d) (rom_exts p)) \<and>
                           is_duplicate (zip_stems (get_roms (files d) (rom_exts p))) (fst e)))
             (filter (\<lambda>e. fst e \<notin> M) (files d)) \<and>
     (files (fst (etape2_platform False p d)) = fs3
      \<or> (\<exists>c. files (fst (etape2_platform False p d)) = write_file ''filelist.csv'' c fs3))"
proof -
  let ?roms = "get_roms (files d) (rom_exts p)" and ?imgs = "get_images (files d)"
  let ?d1 = "fst (create_images_dir False p ?roms d)"
  let ?d2 = "fst (if ?imgs \<noteq> [] \<and> ?roms \<noteq> [] then move_images False p ?roms ?imgs [] ?d1
                  else (?d1, []))"
  let ?fs3 = "fst (if ?roms \<noteq> [] then prune_duplicates False p (zip_stems ?roms) ?roms (files ?d2)
                   else (files ?d2, []))"
  let ?d4 = "fst (prune_orphans False p (?d2\<lparr>files := ?fs3\<rparr>))"
  have e: "fst (etape2_platform False p d) = fst (generate_csv False p ?d4)"
    by (simp add: etape2_platform_def Let_def split: prod.splits)
  obtain M where M: "M \<subseteq> set ?imgs" "files ?d2 = filter (\<lambda>e. fst e \<notin> M) (files d)"
  proof (cases "?imgs \<noteq> [] \<and> ?roms \<noteq> []")
    case True
    then show ?thesis
      using move_images_files[of ?imgs False p ?roms "[]" ?d1] that
      by (auto simp: create_images_dir_files)
  next
    case False
    then have "files ?d2 = filter (\<lambda>e. fst e \<notin> {}) (files d)"
      by (auto simp: create_images_dir_files)
    then show ?thesis using that[of "{}"] by simp
  qed
  have fs3: "?fs3 = filter (\<lambda>e. \<not> (fst e \<in> set ?roms \<and> is_duplicate (zip_stems ?roms) (fst e)))
                      (files ?d2)"
    by (cases "?roms = []") (simp_all add: prune_duplicates_files)
  have "files ?d4 = ?fs3" by (simp add: prune_orphans_files)
  with generate_csv_files[of False p ?d4] e fs3 M show ?thesis
    by (metis (no_types, lifting))
qed

section \<open>Duplicate pruning\<close>

lemma map_of_filter_key:
  "map_of (filter (\<lambda>e. Q (fst e)) fs) f = (if Q f then map_of fs f else None)"
  by (induction fs) auto

lemma is_duplicate_iff:
  "is_duplicate (zip_stems roms) f
     \<longleftrightarrow> path_suffix f \<noteq> ''.zip'' \<and> (\<exists>z\<in>set roms. path_suffix z = ''.zip'' \<and> path_stem z = path_stem f)"
  by (fastforce simp: is_duplicate_def zip_stems_def image_iff)

text \<open>
  What the pruning step does. In execute mode, after the reconciliation of a platform
  directory (step 2), every ROM of the directory (a file whose lower-cased suffix is in
  the platform's set) whose suffix is not exactly \<open>.zip\<close> and whose stem is the stem of a
  ROM with suffix exactly \<open>.zip\<close> of the same directory is gone, and every other ROM is
  still there with its content. With \<open>zelda.gb\<close> and \<open>zelda.zip\<close> in \<open>GB/\<close>, after the
  run only \<open>zelda.zip\<close> remains (beside the generated \<open>filelist.csv\<close>).
\<close>

lemma duplicate_pruning_exact:
  "(\<forall>f\<in>set (get_roms (files d) (rom_exts p)).
       map_of (files (fst (etape2_platform False p d))) f
         = (if path_suffix f \<noteq> ''.zip'' \<and>
               (\<exists>z\<in>set (get_roms (files d) (rom_exts p)).
                    path_suffix z = ''.zip'' \<and> path_stem z = path_stem f)
            then None else map_of (files d) f))
   \<and> platform_dirs (final (sync_sd_card ascii_upper vol_zelda False)) ''GB''
       = Some \<lparr>files = [(''zelda.zip'', ''zip''), (''filelist.csv'', ''zelda.zip,zelda,zelda\<newline>'')],
               images = Some []\<rparr>"
proof (intro conjI ballI)
  fix f
  let ?roms = "get_roms (files d) (rom_exts p)"
  assume f: "f \<in> set ?roms"
  then have rom: "is_rom (rom_exts p) f" by (simp add: set_get_roms)
  obtain M fs3 where M: "M \<subseteq> set (get_images (files d))"
    and fs3: "fs3 = filter (\<lambda>e. \<not> (fst e \<in> set ?roms \<and> is_duplicate (zip_stems ?roms) (fst e)))
                      (filter (\<lambda>e. fst e \<notin> M) (files d))"
    and fin: "files (fst (etape2_platform False p d)) = fs3
              \<or> (\<exists>c. files (fst (etape2_platform False p d)) = write_file ''filelist.csv'' c fs3)"
    using etape2_platform_files[of d p] by blast
  have "f \<notin> M" using M rom rom_not_image by (auto simp: get_images_def)
  then have "map_of (filter (\<lambda>e. fst e \<notin> M) (files d)) f = map_of (files d) f"
    using map_of_filter_key[of "\<lambda>n. n \<notin> M" "files d" f] by simp
  moreover have "map_of fs3 f
        = (if \<not> (f \<in> set ?roms \<and> is_duplicate (zip_stems ?roms) f)
           then map_of (filter (\<lambda>e. fst e \<notin> M) (files d)) f else None)"
    unfolding fs3
    by (rule map_of_filter_key[of "\<lambda>n. \<not> (n \<in> set ?roms \<and> is_duplicate (zip_stems ?roms) n)"])
  ultimately have "map_of fs3 f = (if is_duplicate (zip_stems ?roms) f then None else map_of (files d) f)"
    using f by simp
  moreover have "f \<noteq> ''filelist.csv''" using rom csv_not_rom by auto
  then have "map_of (files (fst (etape2_platform False p d))) f = map_of fs3 f"
    using fin by (auto simp: map_of_write_file)
  ultimately show "map_of (files (fst (etape2_platform False p d))) f
         = (if path_suffix f \<noteq> ''.zip'' \<and>
               (\<exists>z\<in>set ?roms. path_suffix z = ''.zip'' \<and> path_stem z = path_stem f)
            then None else map_of (files d) f)"
    by (simp add: is_duplicate_iff)
next
  show "platform_dirs (final (sync_sd_card ascii_upper vol_zelda False)) ''GB''
       = Some \<lparr>files = [(''zelda.zip'', ''zip''), (''filelist.csv'', ''zelda.zip,zelda,zelda\<newline>'')],
               images = Some []\<rparr>"
    by code_simp
qed

lemma duplicate_pruning_exact_example:
  "map_of (files (fst (etape2_platform False ''GB'' dir_zelda))) ''zelda.gb'' = None
   \<and> map_of (files (fst (etape2_platform False ''GB'' dir_zelda))) ''zelda.zip'' = Some ''zip''
   \<and> map_of (files (fst (etape2_platform False ''GB'' dir_zelda))) ''tetris.gb'' = Some ''t''"
proof -
  have r: "get_roms (files dir_zelda) (rom_exts ''GB'') = [''tetris.gb'', ''zelda.gb'', ''zelda.zip'']"
    by code_simp
  have s: "path_suffix ''zelda.gb'' = ''.gb''" "path_suffix ''zelda.zip'' = ''.zip''"
     "path_suffix ''tetris.gb'' = ''.gb''" "path_stem ''zelda.gb'' = ''zelda''"
     "path_stem ''zelda.zip'' = ''zelda''" "path_stem ''tetris.gb'' = ''tetris''"
    by code_simp+
  have m: "map_of (files dir_zelda) ''zelda.zip'' = Some ''zip''"
     "map_of (files dir_zelda) ''tetris.gb'' = Some ''t''"
    by (simp_all add: dir_zelda_def)
  show ?thesis
    using duplicate_pruning_exact [of dir_zelda "''GB''"] by (simp add: r s m)
qed

text \<open>
  C5 fails of the code when the suffix of an archive is not in lower case. The listing
  of the ROMs compares the suffixes up to case, so \<open>zelda.ZIP\<close> and \<open>link.ZIP\<close> are
  ROMs of \<open>GB/\<close>, archives with suffix \<open>.zip\<close> up to case; the pruning step compares
  the suffix with \<open>.zip\<close> exactly. So \<open>zelda.gb\<close> is not deleted beside \<open>zelda.ZIP\<close>,
  and \<open>link.ZIP\<close> is deleted beside \<open>link.zip\<close> as if it were not an archive.
\<close>

theorem duplicate_pruning_case:
  "get_roms (files dir_upper_zip) (rom_exts ''GB'')
     = [''link.ZIP'', ''link.zip'', ''zelda.ZIP'', ''zelda.gb'']
   \<and> lower (path_suffix ''zelda.ZIP'') = ''.zip'' \<and> path_stem ''zelda.ZIP'' = path_stem ''zelda.gb''
   \<and> lower (path_suffix ''link.ZIP'') = ''.zip'' \<and> path_stem ''link.ZIP'' = path_stem ''link.zip''
   \<and> actions (sync_sd_card ascii_upper vol_upper_zip False)
       = [DeleteDuplicate ''GB'' ''link.ZIP'',
          WriteCsv ''GB'' [''link.zip,link,link'', ''zelda.ZIP,zelda,zelda'', ''zelda.gb,zelda,zelda'']]
   \<and> platform_dirs (final (sync_sd_card ascii_upper vol_upper_zip False)) ''GB''
       = Some \<lparr>files = [(''zelda.gb'', ''raw''), (''zelda.ZIP'', ''zip''), (''link.zip'', ''a''),
                        (''filelist.csv'',
                         ''link.zip,link,link\<newline>zelda.ZIP,zelda,zelda\<newline>zelda.gb,zelda,zelda\<newline>'')],
               images = Some []\<rparr>"
  by code_simp

section \<open>Orphan images\<close>

lemma delete_orphans_actions:
  "snd (delete_orphans dry_run p valid fs im)
     = map (DeleteOrphan p) (filter (\<lambda>f. path_stem f \<notin> set valid) fs)"
  by (induction fs arbitrary: im) (simp_all add: case_prod_beta)

lemma delete_orphans_images:
  "fst (delete_orphans False p valid fs im)
     = filter (\<lambda>e. \<not> (fst e \<in> set fs \<and> path_stem (fst e) \<notin> set valid)) im"
proof (induction fs arbitrary: im)
  case Nil
  show ?case by simp
next
  case (Cons f fs)
  show ?case
  proof (cases "path_stem f \<notin> set valid")
    case True
    have "fst (delete_orphans False p valid (f # fs) im)
            = filter (\<lambda>e. \<not> (fst e \<in> set fs \<and> path_stem (fst e) \<notin> set valid))
                (filter (\<lambda>e. fst e \<noteq> f) im)"
      using True by (simp add: Cons.IH unlink_filter case_prod_beta)
    also have "\<dots> = filter (\<lambda>e. \<not> (fst e \<in> set (f # fs) \<and> path_stem (fst e) \<notin> set valid)) im"
      using True by (auto intro: filter_cong)
    finally show ?thesis .
  next
    case False
    have "fst (delete_orphans False p valid (f # fs) im)
            = filter (\<lambda>e. \<not> (fst e \<in> set fs \<and> path_stem (fst e) \<notin> set valid)) im"
      using False by (simp add: Cons.IH)
    also have "\<dots> = filter (\<lambda>e. \<not> (fst e \<in> set (f # fs) \<and> path_stem (fst e) \<notin> set valid)) im"
      using False by (auto intro: filter_cong)
    finally show ?thesis .
  qed
qed

lemma delete_all_actions: "snd (delete_all dry_run p fs im) = map (DeleteOrphan p) fs"
  by (induction fs arbitrary: im) (simp_all add: case_prod_beta)

lemma delete_all_images:
  "fst (delete_all False p fs im) = filter (\<lambda>e. fst e \<notin> set fs) im"
proof (induction fs arbitrary: im)
  case Nil
  show ?case by simp
next
  case (Cons f fs)
  have "fst (delete_all False p (f # fs) im)
          = filter (\<lambda>e. fst e \<notin> set fs) (filter (\<lambda>e. fst e \<noteq> f) im)"
    by (simp add: Cons.IH unlink_filter case_prod_beta)
  also have "\<dots> = filter (\<lambda>e. fst e \<notin> set (f # fs)) im"
    by (auto intro: filter_cong)
  finally show ?case .
qed

lemma prune_orphans_images:
  assumes "images d = Some im"
  shows "images (fst (prune_orphans False p d))
           = Some (if get_roms (files d) (rom_exts p) \<noteq> []
                   then filter (\<lambda>e. path_stem (fst e)
                                       \<in> set (map path_stem (get_roms (files d) (rom_exts p)))) im
                   else [])"
proof (cases "get_roms (files d) (rom_exts p) \<noteq> []")
  case True
  have "filter (\<lambda>e. \<not> (fst e \<in> set (names im) \<and>
                        path_stem (fst e) \<notin> set (map path_stem (get_roms (files d) (rom_exts p))))) im
        = filter (\<lambda>e. path_stem (fst e) \<in> set (map path_stem (get_roms (files d) (rom_exts p)))) im"
    by (rule filter_cong) (auto simp: names_def)
  with True assms show ?thesis
    by (simp add: prune_orphans_def Let_def case_prod_beta delete_orphans_images)
next
  case False
  have "filter (\<lambda>e. fst e \<notin> set (names im)) im = []"
    by (auto simp: names_def filter_empty_conv)
  with False assms show ?thesis
    by (cases "im = []") (simp_all add: prune_orphans_def Let_def case_prod_beta delete_all_images)
qed

text \<open>
  C6. The orphan step of execute mode, on the directory as the duplicate step left it
  (the ROMs are listed again from it): with at least one ROM, \<open>images/\<close> keeps, in
  their order and with their content, exactly the files whose stem is the stem of a
  current ROM, and the others are deleted; with no ROM and a non-empty \<open>images/\<close>,
  every file of \<open>images/\<close> is deleted. The files of the platform directory are not
  touched. With \<open>mario.zip\<close>, \<open>images/mario.png\<close> and \<open>images/ghost.png\<close>, after the
  run \<open>images/mario.png\<close> remains and \<open>images/ghost.png\<close> is gone.
\<close>

theorem orphan_pruning:
  "(\<forall>im. images d = Some im \<and> get_roms (files d) (rom_exts p) \<noteq> [] \<longrightarrow>
       images (fst (prune_orphans False p d))
         = Some (filter (\<lambda>e. path_stem (fst e)
                               \<in> path_stem ` set (get_roms (files d) (rom_exts p))) im))
   \<and> (\<forall>im. images d = Some im \<and> get_roms (files d) (rom_exts p) = [] \<and> im \<noteq> [] \<longrightarrow>
       images (fst (prune_orphans False p d)) = Some [])
   \<and> files (fst (prune_orphans False p d)) = files d
   \<and> platform_dirs (final (sync_sd_card ascii_upper vol_mario False)) ''GB''
        = Some \<lparr>files = [(''mario.zip'', ''rom''),
                         (''filelist.csv'', ''mario.zip,mario,mario\<newline>'')],
                images = Some [(''mario.png'', ''cover'')]\<rparr>"
proof (intro conjI allI impI)
  fix im
  assume "images d = Some im \<and> get_roms (files d) (rom_exts p) \<noteq> []"
  then show "images (fst (prune_orphans False p d))
         = Some (filter (\<lambda>e. path_stem (fst e)
                               \<in> path_stem ` set (get_roms (files d) (rom_exts p))) im)"
    using prune_orphans_images[of d im p] by simp
next
  fix im
  assume "images d = Some im \<and> get_roms (files d) (rom_exts p) = [] \<and> im \<noteq> []"
  then show "images (fst (prune_orphans False p d)) = Some []"
    using prune_orphans_images[of d im p] by simp
next
  show "files (fst (prune_orphans False p d)) = files d"
    by (auto simp: prune_orphans_def Let_def split: option.splits prod.splits)
next
  show "platform_dirs (final (sync_sd_card ascii_upper vol_mario False)) ''GB''
        = Some \<lparr>files = [(''mario.zip'', ''rom''),
                         (''filelist.csv'', ''mario.zip,mario,mario\<newline>'')],
                images = Some [(''mario.png'', ''cover'')]\<rparr>"
    by code_simp
qed

theorem orphan_pruning_witness:
  "images (fst (prune_orphans False ''GB'' dir_mario)) = Some [(''mario.png'', ''cover'')]"
proof -
  have r: "get_roms (files dir_mario) (rom_exts ''GB'') = [''mario.zip'']"
    by code_simp
  have s: "path_stem ''mario.zip'' = ''mario''" "path_stem ''mario.png'' = ''mario''"
      "path_stem ''ghost.png'' = ''ghost''"
    by code_simp+
  have i: "images dir_mario = Some [(''mario.png'', ''cover''), (''ghost.png'', ''boo'')]"
    by (simp add: dir_mario_def)
  show ?thesis
    using orphan_pruning [of dir_mario "''GB''"] by (simp add: r s i)
qed

section \<open>Per-platform CSV\<close>

lemma sorted_get_roms: "sorted (get_roms d exts)"
  by (simp add: get_roms_def)

lemma last_lines_text: "last (lines_text ls) = CHR 0x0A"
  by (simp add: lines_text_def)


text \<open>
  C7. The CSV step of execute mode. Without ROMs an existing \<open>filelist.csv\<close> becomes
  empty (it is not deleted), and nothing changes when there is no such file. With ROMs
  the file becomes one line per ROM, in the sorted order of \<open>get_roms\<close>, joined by
  newlines and followed by a newline: the name, a comma, and the remainder stored for the
  name in the loaded CSV, or else \<open>stem,stem\<close>. The record
  \<open>game.zip,Custom Name,CustomRegion\<close> is loaded as \<open>Custom Name,CustomRegion\<close> and written
  back as it was when \<open>game.zip\<close> is still there.
\<close>

theorem csv_regeneration:
  "(get_roms (files d) (rom_exts p) = [] \<and> map_of (files d) ''filelist.csv'' \<noteq> None \<longrightarrow>
      map_of (files (fst (generate_csv False p d))) ''filelist.csv'' = Some [])
   \<and> (get_roms (files d) (rom_exts p) = [] \<and> map_of (files d) ''filelist.csv'' = None \<longrightarrow>
      fst (generate_csv False p d) = d)
   \<and> (get_roms (files d) (rom_exts p) \<noteq> [] \<longrightarrow>
      map_of (files (fst (generate_csv False p d))) ''filelist.csv''
        = Some (join_lines
                  (map (\<lambda>rom. case load_csv (map_of (files d) ''filelist.csv'') rom of
                                 Some rest \<Rightarrow> rom @ '','' @ rest
                               | None \<Rightarrow> rom @ '','' @ path_stem rom @ '','' @ path_stem rom)
                       (get_roms (files d) (rom_exts p)))
                @ [CHR 0x0A]))
   \<and> sorted (get_roms (files d) (rom_exts p))
   \<and> set (get_roms (files d) (rom_exts p)) = {f \<in> set (names (files d)). is_rom (rom_exts p) f}
   \<and> load_csv (Some ''game.zip,Custom Name,CustomRegion\<newline>'') ''game.zip''
        = Some ''Custom Name,CustomRegion''
   \<and> map_of (files (fst (generate_csv False ''GB'' dir_game))) ''filelist.csv''
        = Some ''game.zip,Custom Name,CustomRegion\<newline>new.zip,new,new\<newline>''"
proof (intro conjI impI)
  assume "get_roms (files d) (rom_exts p) = [] \<and> map_of (files d) ''filelist.csv'' \<noteq> None"
  then show "map_of (files (fst (generate_csv False p d))) ''filelist.csv'' = Some []"
    by (simp add: generate_csv_def Let_def write_file_def update_conv')
next
  assume "get_roms (files d) (rom_exts p) = [] \<and> map_of (files d) ''filelist.csv'' = None"
  then show "fst (generate_csv False p d) = d"
    by (simp add: generate_csv_def Let_def)
next
  have l: "csv_line (load_csv (map_of (files d) ''filelist.csv''))
        = (\<lambda>rom. case load_csv (map_of (files d) ''filelist.csv'') rom of
                   Some rest \<Rightarrow> rom @ '','' @ rest
                 | None \<Rightarrow> rom @ '','' @ path_stem rom @ '','' @ path_stem rom)"
    by (simp add: fun_eq_iff csv_line_def)
  assume "get_roms (files d) (rom_exts p) \<noteq> []"
  then show "map_of (files (fst (generate_csv False p d))) ''filelist.csv''
        = Some (join_lines
                  (map (\<lambda>rom. case load_csv (map_of (files d) ''filelist.csv'') rom of
                                 Some rest \<Rightarrow> rom @ '','' @ rest
                               | None \<Rightarrow> rom @ '','' @ path_stem rom @ '','' @ path_stem rom)
                       (get_roms (files d) (rom_exts p)))
                @ [CHR 0x0A])"
    by (simp add: generate_csv_def Let_def write_file_def update_conv' lines_text_def l)
next
  show "sorted (get_roms (files d) (rom_exts p))" by (simp add: get_roms_def)
next
  show "set (get_roms (files d) (rom_exts p)) = {f \<in> set (names (files d)). is_rom (rom_exts p) f}"
    by (auto simp: get_roms_def)
next
  show "load_csv (Some ''game.zip,Custom Name,CustomRegion\<newline>'') ''game.zip''
        = Some ''Custom Name,CustomRegion''"
    by code_simp
next
  show "map_of (files (fst (generate_csv False ''GB'' dir_game))) ''filelist.csv''
        = Some ''game.zip,Custom Name,CustomRegion\<newline>new.zip,new,new\<newline>''"
    by code_simp
qed

theorem csv_regeneration_witness:
  "map_of (files (fst (generate_csv False ''GB'' dir_empty_csv))) ''filelist.csv'' = Some []
   \<and> map_of (files (fst (generate_csv False ''GB'' dir_game))) ''filelist.csv''
        = Some ''game.zip,Custom Name,CustomRegion\<newline>new.zip,new,new\<newline>''"
proof -
  have r: "get_roms (files dir_empty_csv) (rom_exts ''GB'') = []"
    by code_simp
  have m: "map_of (files dir_empty_csv) ''filelist.csv'' \<noteq> None"
    by (simp add: dir_empty_csv_def)
  show ?thesis
    using csv_regeneration [of dir_empty_csv "''GB''"] r m by simp
qed

section \<open>Names with commas\<close>

text \<open>
  The name of a ROM ends with one of the extensions of the table, up to case, and so does
  the name without its commas: renaming a ROM never raises.
\<close>

lemma rom_ext_shape: "e \<in> set (rom_exts p) \<Longrightarrow> 3 \<le> length e \<and> CHR '','' \<notin> set e"
  by (auto dest!: rom_exts_cases)

lemma lower_comma: "CHR '','' \<in> set s \<Longrightarrow> CHR '','' \<in> set (lower s)"
  by (force simp: lower_def lower_char_def is_upper_def)

lemma path_suffix_drop: "\<exists>n. path_suffix f = drop n f"
proof (cases "path_suffix f = []")
  case True
  then have "path_suffix f = drop (length f) f" by simp
  then show ?thesis by blast
next
  case False
  then show ?thesis by (auto simp: path_suffix_def Let_def split: if_splits)
qed

lemma rom_target_ok:
  assumes "is_rom (rom_exts p) f"
  shows "\<not> bad_target (remove_commas f)"
proof -
  from assms have e: "lower (path_suffix f) \<in> set (rom_exts p)" by (simp add: is_rom_def)
  from rom_ext_shape[OF e] have l: "3 \<le> length (path_suffix f)"
    and c: "CHR '','' \<notin> set (path_suffix f)"
    using lower_comma[of "path_suffix f"] by (auto simp: lower_def)
  obtain n where n: "path_suffix f = drop n f" using path_suffix_drop by blast
  have "remove_commas f = remove_commas (take n f) @ remove_commas (drop n f)"
    unfolding remove_commas_def by (simp flip: filter_append)
  moreover have "remove_commas (drop n f) = drop n f"
    using c n by (auto simp: remove_commas_def filter_id_conv)
  ultimately have "3 \<le> length (remove_commas f)" using l n by simp
  then show ?thesis by (auto simp: bad_target_def)
qed

lemma rename_all_Cons:
  "rename_all P (f # fs) d
     = rename_all P fs (if P f then rename f (remove_commas f) d else d)"
  by (simp add: rename_all_def)

lemma rename_all_Nil: "rename_all P [] d = d"
  by (simp add: rename_all_def)

text \<open>The loops of step 1 in execute mode.\<close>

lemma rename_roms_exec:
  "rename_roms False p fs d
     = (rename_all (\<lambda>f. is_rom (rom_exts p) f \<and> has_comma f) fs d,
        map (\<lambda>f. RenameRom p f (remove_commas f))
          (filter (\<lambda>f. is_rom (rom_exts p) f \<and> has_comma f) fs), None)"
  by (induction fs arbitrary: d) (auto simp: rename_all_Cons rename_all_Nil rom_target_ok)

lemma rename_images_exec:
  "\<forall>f\<in>set fs. has_comma f \<longrightarrow> \<not> bad_target (remove_commas f) \<Longrightarrow>
   rename_images False p fs d
     = (rename_all has_comma fs d,
        map (\<lambda>f. RenameImage p f (remove_commas f)) (filter has_comma fs), None)"
  by (induction fs arbitrary: d) (simp_all add: rename_all_Cons rename_all_Nil)

text \<open>It raises exactly when a name with a comma has no name to take.\<close>

lemma rename_images_raises:
  "snd (snd (rename_images False p fs d))
     = (if \<exists>f\<in>set fs. has_comma f \<and> bad_target (remove_commas f) then Some OSError else None)"
  by (induction fs arbitrary: d) (auto simp: case_prod_beta)

lemma no_comma_remove_commas: "\<not> has_comma (remove_commas f)"
  by (simp add: has_comma_def remove_commas_def)

lemma map_of_rename_other:
  "n \<noteq> t \<Longrightarrow> map_of (rename f t d) n = (if n = f then None else map_of d n)"
  by (auto simp: rename_def write_file_def unlink_def update_conv' delete_conv'
      split: option.splits)

lemma map_of_rename_target:
  "map_of d f = Some c \<Longrightarrow> map_of (rename f t d) t = Some c"
  by (simp add: rename_def write_file_def update_conv')

text \<open>Names with a comma: the renamed ones are gone, the others are untouched.\<close>

lemma rename_all_comma:
  assumes "\<And>f. P f \<Longrightarrow> has_comma f" "has_comma n"
  shows "map_of (rename_all P fs d) n = (if n \<in> set fs \<and> P n then None else map_of d n)"
proof (induction fs arbitrary: d)
  case Nil
  show ?case by (simp add: rename_all_def)
next
  case (Cons f fs)
  have nt: "n \<noteq> remove_commas f" using assms(2) no_comma_remove_commas by auto
  show ?case
    using Cons.IH nt by (auto simp: rename_all_Cons map_of_rename_other)
qed

text \<open>A name that no renamed file maps to keeps its content.\<close>

lemma rename_all_no_source:
  assumes "\<And>f. P f \<Longrightarrow> has_comma f"
    and "\<forall>g\<in>set fs. P g \<and> remove_commas g = t \<longrightarrow> map_of d g = None"
    and "\<not> has_comma t"
  shows "map_of (rename_all P fs d) t = map_of d t"
  using assms(2)
proof (induction fs arbitrary: d)
  case Nil
  show ?case by (simp add: rename_all_def)
next
  case (Cons f fs)
  show ?case
  proof (cases "P f")
    case False
    with Cons show ?thesis by (simp add: rename_all_Cons)
  next
    case True
    let ?d1 = "rename f (remove_commas f) d"
    have ft: "f \<noteq> t" using True assms(1,3) by auto
    have pre: "\<forall>g\<in>set fs. P g \<and> remove_commas g = t \<longrightarrow> map_of ?d1 g = None"
    proof (intro ballI impI)
      fix g assume g: "g \<in> set fs" "P g \<and> remove_commas g = t"
      then have "map_of d g = None" using Cons.prems by auto
      moreover have "g \<noteq> remove_commas f" using g assms(1) no_comma_remove_commas by auto
      ultimately show "map_of ?d1 g = None" by (simp add: map_of_rename_other)
    qed
    have "map_of ?d1 t = map_of d t"
    proof (cases "remove_commas f = t")
      case True
      then have "map_of d f = None" using Cons.prems \<open>P f\<close> by auto
      then show ?thesis by (simp add: rename_def)
    next
      case False
      then show ?thesis using ft by (simp add: map_of_rename_other)
    qed
    with Cons.IH[OF pre] True show ?thesis by (simp add: rename_all_Cons)
  qed
qed

text \<open>A target holds the content of one of the files renamed to it.\<close>

lemma rename_all_target:
  assumes "\<And>f. P f \<Longrightarrow> has_comma f"
    and "\<exists>g\<in>set fs. P g \<and> remove_commas g = t \<and> map_of d g \<noteq> None"
  shows "\<exists>g\<in>set fs. P g \<and> remove_commas g = t \<and> map_of d g \<noteq> None
           \<and> map_of (rename_all P fs d) t = map_of d g"
  using assms(2)
proof (induction fs arbitrary: d)
  case Nil
  then show ?case by simp
next
  case (Cons f fs)
  have tc: "\<not> has_comma t" using Cons.prems no_comma_remove_commas by auto
  show ?case
  proof (cases "P f")
    case False
    then have "\<exists>g\<in>set fs. P g \<and> remove_commas g = t \<and> map_of d g \<noteq> None"
      using Cons.prems by auto
    from Cons.IH[OF this] False show ?thesis by (auto simp: rename_all_Cons)
  next
    case True
    let ?d1 = "rename f (remove_commas f) d"
    have other: "map_of ?d1 g = map_of d g" if "has_comma g" "g \<noteq> f" for g
    proof -
      have "g \<noteq> remove_commas f" using that(1) no_comma_remove_commas by auto
      then show ?thesis using that(2) by (simp add: map_of_rename_other)
    qed
    have gone: "map_of ?d1 f = None"
    proof -
      have "has_comma f" using True assms(1) by simp
      then have "f \<noteq> remove_commas f" using no_comma_remove_commas[of f] by auto
      then show ?thesis by (simp add: map_of_rename_other)
    qed
    show ?thesis
    proof (cases "\<exists>g\<in>set fs. P g \<and> remove_commas g = t \<and> map_of ?d1 g \<noteq> None")
      case True
      from Cons.IH[OF this] obtain g where g: "g \<in> set fs" "P g" "remove_commas g = t"
          "map_of ?d1 g \<noteq> None" "map_of (rename_all P fs ?d1) t = map_of ?d1 g"
        by blast
      have "g \<noteq> f" using g(4) gone by auto
      then have "map_of ?d1 g = map_of d g" using g(2) assms(1) other by auto
      with g \<open>P f\<close> show ?thesis by (auto simp: rename_all_Cons)
    next
      case False
      obtain g0 where g0: "g0 \<in> set (f # fs)" "P g0" "remove_commas g0 = t" "map_of d g0 \<noteq> None"
        using Cons.prems by blast
      have "g0 = f"
      proof (rule ccontr)
        assume "g0 \<noteq> f"
        then have "g0 \<in> set fs" "map_of ?d1 g0 = map_of d g0"
          using g0 assms(1) other by auto
        with False g0 show False by auto
      qed
      then obtain c where c: "map_of d f = Some c" "remove_commas f = t" using g0 by auto
      have "\<forall>g\<in>set fs. P g \<and> remove_commas g = t \<longrightarrow> map_of ?d1 g = None"
        using False by auto
      then have "map_of (rename_all P fs ?d1) t = map_of ?d1 t"
        using rename_all_no_source[OF assms(1) _ tc] by blast
      also have "\<dots> = Some c" using c by (simp add: map_of_rename_target)
      finally show ?thesis using c True by (auto simp: rename_all_Cons)
    qed
  qed
qed

lemma map_of_names: "f \<in> set (names d) \<Longrightarrow> map_of d f \<noteq> None"
  by (simp add: names_def map_of_eq_None_iff)

lemma etape1_platform_files:
  "files (fst (etape1_platform False p d))
     = rename_all (\<lambda>f. is_rom (rom_exts p) f \<and> has_comma f) (names (files d)) (files d)"
  by (simp add: etape1_platform_def rename_roms_exec case_prod_beta split: option.splits)

lemma etape1_platform_exec:
  assumes "\<And>im. images d = Some im \<Longrightarrow>
             \<forall>f\<in>set (names im). has_comma f \<longrightarrow> \<not> bad_target (remove_commas f)"
  shows "etape1_platform False p d
     = (d\<lparr>files := rename_all (\<lambda>f. is_rom (rom_exts p) f \<and> has_comma f) (names (files d)) (files d),
          images := map_option (\<lambda>im. rename_all has_comma (names im) im) (images d)\<rparr>,
        map (\<lambda>f. RenameRom p f (remove_commas f))
          (filter (\<lambda>f. is_rom (rom_exts p) f \<and> has_comma f) (names (files d)))
        @ (case images d of
             None \<Rightarrow> []
           | Some im \<Rightarrow> map (\<lambda>f. RenameImage p f (remove_commas f))
                          (filter has_comma (names im))), None)"
proof (cases "images d")
  case None
  then show ?thesis by (simp add: etape1_platform_def rename_roms_exec)
next
  case (Some im)
  from assms[OF Some] have "rename_images False p (names im) im
     = (rename_all has_comma (names im) im,
        map (\<lambda>f. RenameImage p f (remove_commas f)) (filter has_comma (names im)), None)"
    by (rule rename_images_exec)
  then show ?thesis using Some by (simp add: etape1_platform_def rename_roms_exec)
qed

lemma etape1_platform_images:
  assumes "\<And>im. images d = Some im \<Longrightarrow>
             \<forall>f\<in>set (names im). has_comma f \<longrightarrow> \<not> bad_target (remove_commas f)"
  shows "images (fst (etape1_platform False p d))
     = map_option (\<lambda>im. rename_all has_comma (names im) im) (images d)"
  using etape1_platform_exec[of d p] assms by simp

text \<open>Step 1 of a platform raises exactly when \<open>images/\<close> has such a name.\<close>

lemma etape1_platform_raises:
  "snd (snd (etape1_platform False p d))
     = (if \<exists>im. images d = Some im
             \<and> (\<exists>f\<in>set (names im). has_comma f \<and> bad_target (remove_commas f))
        then Some OSError else None)"
  using rename_images_raises[of p]
  by (auto simp: etape1_platform_def rename_roms_exec case_prod_beta split: option.splits)

text \<open>
  C8, as the code has it. Step 1 of execute mode on a platform directory: every ROM of
  the directory whose name has a comma is gone under that name, and the name without
  commas holds the content of a ROM renamed to it (the last one, when several names
  collapse); the same holds for every file of \<open>images/\<close> whose name has a comma, when no
  such name of \<open>images/\<close> is empty, \<open>.\<close> or \<open>..\<close> without its commas. A file of the
  platform directory that is not a ROM, a loose cover image for instance, keeps its name
  with its commas.
\<close>

theorem sanitize_names:
  "(\<forall>f\<in>set (names (files d)). is_rom (rom_exts p) f \<and> has_comma f \<longrightarrow>
       map_of (files (fst (etape1_platform False p d))) f = None
       \<and> (\<exists>g\<in>set (names (files d)).
             is_rom (rom_exts p) g \<and> has_comma g \<and> remove_commas g = remove_commas f
             \<and> map_of (files d) g \<noteq> None
             \<and> map_of (files (fst (etape1_platform False p d))) (remove_commas f)
                 = map_of (files d) g))
   \<and> (\<forall>im. images d = Some im
           \<and> (\<forall>f\<in>set (names im). has_comma f \<longrightarrow> \<not> bad_target (remove_commas f)) \<longrightarrow>
         (\<exists>im'. images (fst (etape1_platform False p d)) = Some im'
            \<and> (\<forall>f\<in>set (names im). has_comma f \<longrightarrow>
                 map_of im' f = None
                 \<and> (\<exists>g\<in>set (names im). has_comma g \<and> remove_commas g = remove_commas f
                       \<and> map_of im g \<noteq> None
                       \<and> map_of im' (remove_commas f) = map_of im g))))
   \<and> (\<forall>f. has_comma f \<and> \<not> is_rom (rom_exts p) f \<longrightarrow>
         map_of (files (fst (etape1_platform False p d))) f = map_of (files d) f)"
proof (intro conjI ballI allI impI)
  fix f
  assume f: "f \<in> set (names (files d))" "is_rom (rom_exts p) f \<and> has_comma f"
  let ?P = "\<lambda>f. is_rom (rom_exts p) f \<and> has_comma f"
  show "map_of (files (fst (etape1_platform False p d))) f = None"
    using rename_all_comma[of ?P f "names (files d)" "files d"] f
    by (simp add: etape1_platform_files)
  have "\<exists>g\<in>set (names (files d)). ?P g \<and> remove_commas g = remove_commas f
          \<and> map_of (files d) g \<noteq> None"
    using f map_of_names by blast
  from rename_all_target[of ?P "names (files d)" "remove_commas f" "files d", OF _ this]
  show "\<exists>g\<in>set (names (files d)).
             is_rom (rom_exts p) g \<and> has_comma g \<and> remove_commas g = remove_commas f
             \<and> map_of (files d) g \<noteq> None
             \<and> map_of (files (fst (etape1_platform False p d))) (remove_commas f)
                 = map_of (files d) g"
    by (auto simp: etape1_platform_files)
next
  fix im
  assume a: "images d = Some im
           \<and> (\<forall>f\<in>set (names im). has_comma f \<longrightarrow> \<not> bad_target (remove_commas f))"
  then have im: "images d = Some im" by simp
  let ?im' = "rename_all has_comma (names im) im"
  have "images (fst (etape1_platform False p d))
          = map_option (\<lambda>im. rename_all has_comma (names im) im) (images d)"
    by (rule etape1_platform_images) (use a in simp)
  then have 1: "images (fst (etape1_platform False p d)) = Some ?im'"
    using im by simp
  have 2: "\<forall>f\<in>set (names im). has_comma f \<longrightarrow>
                 map_of ?im' f = None
                 \<and> (\<exists>g\<in>set (names im). has_comma g \<and> remove_commas g = remove_commas f
                       \<and> map_of im g \<noteq> None
                       \<and> map_of ?im' (remove_commas f) = map_of im g)"
  proof (intro ballI impI conjI)
    fix f assume f: "f \<in> set (names im)" "has_comma f"
    show "map_of ?im' f = None"
      using rename_all_comma[of has_comma f "names im" im] f by simp
    have "\<exists>g\<in>set (names im). has_comma g \<and> remove_commas g = remove_commas f \<and> map_of im g \<noteq> None"
      using f map_of_names by blast
    from rename_all_target[of has_comma "names im" "remove_commas f" im, OF _ this]
    show "\<exists>g\<in>set (names im). has_comma g \<and> remove_commas g = remove_commas f
                       \<and> map_of im g \<noteq> None
                       \<and> map_of ?im' (remove_commas f) = map_of im g"
      by auto
  qed
  from 1 2 show "\<exists>im'. images (fst (etape1_platform False p d)) = Some im'
            \<and> (\<forall>f\<in>set (names im). has_comma f \<longrightarrow>
                 map_of im' f = None
                 \<and> (\<exists>g\<in>set (names im). has_comma g \<and> remove_commas g = remove_commas f
                       \<and> map_of im g \<noteq> None
                       \<and> map_of im' (remove_commas f) = map_of im g))"
    by blast
next
  fix f
  assume f: "has_comma f \<and> \<not> is_rom (rom_exts p) f"
  show "map_of (files (fst (etape1_platform False p d))) f = map_of (files d) f"
    using rename_all_comma[of "\<lambda>f. is_rom (rom_exts p) f \<and> has_comma f" f "names (files d)" "files d"] f
    by (simp add: etape1_platform_files)
qed

text \<open>
  The claim as stated fails twice. The loose cover image \<open>ma,rio.png\<close> of \<open>GB/\<close> is
  there under the same name after step 1 and after the whole run. And the file of
  \<open>GB/images/\<close> whose name is a lone comma is not renamed: its new name would be empty,
  the rename raises, and the run ends there, after the rename of \<open>a,b.png\<close> and before
  that of \<open>c,d.png\<close>.
\<close>

theorem sanitize_names_counterexample:
  "is_image ''ma,rio.png'' \<and> has_comma ''ma,rio.png''
   \<and> map_of (files dir_comma) ''ma,rio.png'' = Some ''pic''
   \<and> map_of (files (fst (etape1_platform False ''GB'' dir_comma))) ''ma,rio.png'' = Some ''pic''
   \<and> map_of (files (fst (etape1_platform False ''GB'' dir_comma))) ''mario.png'' = None
   \<and> platform_dirs (final (sync_sd_card ascii_upper vol_comma False)) ''GB''
       = Some \<lparr>files = [(''zelda.zip'', ''z''), (''ma,rio.png'', ''pic''), (''tetris.gb'', ''t''),
                        (''filelist.csv'', ''tetris.gb,tetris,tetris\<newline>zelda.zip,zelda,zelda\<newline>'')],
               images = Some []\<rparr>
   \<and> has_comma '','' \<and> remove_commas '','' = []
   \<and> etape1_platform False ''GB'' dir_bare_comma
       = (\<lparr>files = [(''zelda.zip'', ''z'')],
           images = Some [('','', ''x''), (''c,d.png'', ''cd''), (''ab.png'', ''ab'')]\<rparr>,
          [RenameImage ''GB'' ''a,b.png'' ''ab.png''], Some OSError)
   \<and> raised (sync_sd_card ascii_upper vol_bare_comma False) = Some OSError
   \<and> actions (sync_sd_card ascii_upper vol_bare_comma False)
       = [RenameImage ''GB'' ''a,b.png'' ''ab.png'']
   \<and> platform_dirs (final (sync_sd_card ascii_upper vol_bare_comma False)) ''GB''
       = Some \<lparr>files = [(''zelda.zip'', ''z'')],
               images = Some [('','', ''x''), (''c,d.png'', ''cd''), (''ab.png'', ''ab'')]\<rparr>"
  by code_simp

theorem sanitize_names_witness:
  "map_of (files (fst (etape1_platform False ''GB'' dir_comma))) ''te,tris.gb'' = None
   \<and> map_of (files (fst (etape1_platform False ''GB'' dir_comma))) ''ma,rio.png'' = Some ''pic''
   \<and> map_of (the_images (fst (etape1_platform False ''GB'' dir_comma))) ''a,b.png'' = None
   \<and> map_of (the_images (fst (etape1_platform False ''GB'' dir_comma))) ''ab.png'' = Some ''ab''"
proof -
  have 1: "''te,tris.gb'' \<in> set (names (files dir_comma))"
    by (simp add: dir_comma_def names_def)
  have 2: "is_rom (rom_exts ''GB'') ''te,tris.gb''" "has_comma ''te,tris.gb''"
      "has_comma ''ma,rio.png''" "\<not> is_rom (rom_exts ''GB'') ''ma,rio.png''"
    by code_simp+
  have 3: "map_of (files dir_comma) ''ma,rio.png'' = Some ''pic''"
    by (simp add: dir_comma_def)
  have 4: "images dir_comma = Some [(''a,b.png'', ''ab'')]"
    by (simp add: dir_comma_def)
  have 5: "\<forall>f\<in>set (names [(''a,b.png'', ''ab'')]). has_comma f \<longrightarrow> \<not> bad_target (remove_commas f)"
    by code_simp
  have 6: "has_comma ''a,b.png''" "remove_commas ''a,b.png'' = ''ab.png''"
    "names [(''a,b.png'', ''ab'')] = [''a,b.png'']"
    by code_simp+
  from sanitize_names [of dir_comma "''GB''"] 1 2 3 have a:
    "map_of (files (fst (etape1_platform False ''GB'' dir_comma))) ''te,tris.gb'' = None"
    "map_of (files (fst (etape1_platform False ''GB'' dir_comma))) ''ma,rio.png'' = Some ''pic''"
    by auto
  from sanitize_names [of dir_comma "''GB''"] 4 5 obtain im' where
    im: "images (fst (etape1_platform False ''GB'' dir_comma)) = Some im'"
    "\<forall>f\<in>set (names [(''a,b.png'', ''ab'')]). has_comma f \<longrightarrow>
        map_of im' f = None
        \<and> (\<exists>g\<in>set (names [(''a,b.png'', ''ab'')]). has_comma g \<and> remove_commas g = remove_commas f
              \<and> map_of [(''a,b.png'', ''ab'')] g \<noteq> None
              \<and> map_of im' (remove_commas f) = map_of [(''a,b.png'', ''ab'')] g)"
    by blast
  from im(2) 6 have "map_of im' ''a,b.png'' = None \<and> map_of im' ''ab.png'' = Some ''ab''"
    by auto
  with a im(1) show ?thesis by (simp add: the_images_def)
qed

section \<open>Catalog and lists\<close>

lemma platforms_list:
  "platforms = [''ATARI'', ''FC'', ''GB'', ''GBA'', ''GBC'', ''GG'', ''MAME'', ''MD'',
                ''NGPC'', ''PCE'', ''PS'', ''SFC'']"
  by code_simp

lemma sorted_platforms: "sorted platforms"
  by (simp add: platforms_def)














section \<open>Dry run against execute mode\<close>

section \<open>The loop over the platforms\<close>

lemma for_platforms_cubegm: "cubegm (fst (for_platforms body ps v)) = cubegm v"
  by (induction ps arbitrary: v) (auto simp: case_prod_beta split: option.splits)

lemma for_platforms_dirs:
  "distinct ps \<Longrightarrow>
   platform_dirs (fst (for_platforms body ps v))
     = (\<lambda>q. if q \<in> set ps then map_option (\<lambda>d. fst (body q d)) (platform_dirs v q)
              else platform_dirs v q)"
proof (induction ps arbitrary: v)
  case Nil
  show ?case by simp
next
  case (Cons p ps)
  then have d: "distinct ps" "p \<notin> set ps" by auto
  show ?case
  proof (cases "platform_dirs v p")
    case None
    then show ?thesis using Cons.IH[OF d(1), of v] by (auto simp: fun_eq_iff)
  next
    case (Some d0)
    let ?v' = "v\<lparr>platform_dirs := (platform_dirs v)(p \<mapsto> fst (body p d0))\<rparr>"
    have "fst (for_platforms body (p # ps) v) = fst (for_platforms body ps ?v')"
      using Some by (simp add: case_prod_beta)
    then show ?thesis
      using Cons.IH[OF d(1), of ?v'] Some d(2) by (auto simp: fun_eq_iff)
  qed
qed

lemma for_platforms_actions:
  "distinct ps \<Longrightarrow>
   snd (for_platforms body ps v)
     = concat (map (\<lambda>p. case platform_dirs v p of None \<Rightarrow> [] | Some d \<Rightarrow> snd (body p d)) ps)"
proof (induction ps arbitrary: v)
  case Nil
  show ?case by simp
next
  case (Cons p ps)
  then have d: "distinct ps" "p \<notin> set ps" by auto
  show ?case
  proof (cases "platform_dirs v p")
    case None
    then show ?thesis using Cons.IH[OF d(1), of v] by simp
  next
    case (Some d0)
    let ?v' = "v\<lparr>platform_dirs := (platform_dirs v)(p \<mapsto> fst (body p d0))\<rparr>"
    have same: "map (\<lambda>q. case platform_dirs ?v' q of None \<Rightarrow> [] | Some d \<Rightarrow> snd (body q d)) ps
              = map (\<lambda>q. case platform_dirs v q of None \<Rightarrow> [] | Some d \<Rightarrow> snd (body q d)) ps"
      using d(2) by (intro map_cong) auto
    have "snd (for_platforms body (p # ps) v)
            = snd (body p d0) @ snd (for_platforms body ps ?v')"
      using Some by (simp add: case_prod_beta)
    also have "snd (for_platforms body ps ?v')
            = concat (map (\<lambda>q. case platform_dirs ?v' q of None \<Rightarrow> [] | Some d \<Rightarrow> snd (body q d)) ps)"
      by (rule Cons.IH[OF d(1)])
    also have "\<dots> = concat (map (\<lambda>q. case platform_dirs v q of None \<Rightarrow> [] | Some d \<Rightarrow> snd (body q d)) ps)"
      by (simp only: same)
    finally show ?thesis using Some by simp
  qed
qed

lemma for_platforms_id:
  assumes "\<And>p d. p \<in> set ps \<Longrightarrow> platform_dirs v p = Some d \<Longrightarrow> fst (body p d) = d"
  shows "fst (for_platforms body ps v) = v"
  using assms
proof (induction ps)
  case Nil
  show ?case by simp
next
  case (Cons p ps)
  show ?case
  proof (cases "platform_dirs v p")
    case None
    then show ?thesis using Cons by simp
  next
    case (Some d)
    then have "fst (body p d) = d" using Cons.prems by simp
    then have "v\<lparr>platform_dirs := (platform_dirs v)(p \<mapsto> fst (body p d))\<rparr> = v"
      using Some by (simp add: map_upd_triv)
    then show ?thesis using Some Cons by (simp add: case_prod_beta)
  qed
qed

lemma distinct_platforms: "distinct platforms"
  by (simp add: platforms_list)

section \<open>What each step decides\<close>

lemma rename_all_none: "filter P fs = [] \<Longrightarrow> rename_all P fs d = d"
  by (induction fs arbitrary: d) (auto simp: rename_all_Cons rename_all_def split: if_splits)

text \<open>
  When the dry run of step 1 reports no rename, step 1 of execute mode renames nothing
  and does not raise.
\<close>

lemma etape1_platform_quiet:
  assumes "fst (snd (etape1_platform True p d)) = []"
  shows "etape1_platform False p d = (d, [], None)"
proof -
  have 1: "filter (\<lambda>f. is_rom (rom_exts p) f \<and> has_comma f) (names (files d)) = []"
    using assms by (simp add: etape1_platform_dry_eq)
  have 2: "filter has_comma (names im) = []" if "images d = Some im" for im
    using assms that by (simp add: etape1_platform_dry_eq)
  have ok: "\<forall>f\<in>set (names im). has_comma f \<longrightarrow> \<not> bad_target (remove_commas f)"
    if "images d = Some im" for im
    using 2[OF that] by (auto simp: filter_empty_conv)
  have e: "etape1_platform False p d
     = (d\<lparr>files := rename_all (\<lambda>f. is_rom (rom_exts p) f \<and> has_comma f) (names (files d)) (files d),
          images := map_option (\<lambda>im. rename_all has_comma (names im) im) (images d)\<rparr>,
        map (\<lambda>f. RenameRom p f (remove_commas f))
          (filter (\<lambda>f. is_rom (rom_exts p) f \<and> has_comma f) (names (files d)))
        @ (case images d of
             None \<Rightarrow> []
           | Some im \<Rightarrow> map (\<lambda>f. RenameImage p f (remove_commas f))
                          (filter has_comma (names im))), None)"
    by (rule etape1_platform_exec) (rule ok)
  have f: "rename_all (\<lambda>f. is_rom (rom_exts p) f \<and> has_comma f) (names (files d)) (files d)
             = files d"
    using 1 by (rule rename_all_none)
  have i: "map_option (\<lambda>im. rename_all has_comma (names im) im) (images d) = images d"
    using 2 by (cases "images d") (simp_all add: rename_all_none)
  have a: "(case images d of
             None \<Rightarrow> []
           | Some im \<Rightarrow> map (\<lambda>f. RenameImage p f (remove_commas f))
                          (filter has_comma (names im))) = []"
    using 2 by (cases "images d") simp_all
  show ?thesis unfolding e f i a 1 by simp
qed

lemma etape1_dry_actions:
  "fst (snd (etape1 True ps v))
     = concat (map (\<lambda>p. case platform_dirs v p of
                          None \<Rightarrow> []
                        | Some d \<Rightarrow> fst (snd (etape1_platform True p d))) ps)"
proof (induction ps)
  case Nil
  show ?case by simp
next
  case (Cons p ps)
  show ?case
  proof (cases "platform_dirs v p")
    case None
    then show ?thesis using Cons.IH by simp
  next
    case (Some d)
    then have "v\<lparr>platform_dirs := (platform_dirs v)(p \<mapsto> d)\<rparr> = v"
      by (simp add: map_upd_triv)
    then show ?thesis
      using Some Cons.IH by (simp add: etape1_platform_dry_eq case_prod_beta)
  qed
qed

lemma etape1_quiet:
  assumes "fst (snd (etape1 True ps v)) = []"
  shows "etape1 False ps v = (v, [], None)"
  using assms unfolding etape1_dry_actions
proof (induction ps)
  case Nil
  show ?case by simp
next
  case (Cons p ps)
  show ?case
  proof (cases "platform_dirs v p")
    case None
    then show ?thesis using Cons by simp
  next
    case (Some d)
    with Cons.prems have q: "fst (snd (etape1_platform True p d)) = []"
      and r: "concat (map (\<lambda>p. case platform_dirs v p of
                          None \<Rightarrow> []
                        | Some d \<Rightarrow> fst (snd (etape1_platform True p d))) ps) = []"
      by simp_all
    have same: "v\<lparr>platform_dirs := (platform_dirs v)(p \<mapsto> d)\<rparr> = v"
      using Some by (simp add: map_upd_triv)
    show ?thesis
      using Some etape1_platform_quiet[OF q] Cons.IH[OF r] same by simp
  qed
qed

text \<open>Step 1 only logs renames.\<close>

lemma etape1_disturbs: "a \<in> set (fst (snd (etape1 True ps v))) \<Longrightarrow> disturbs a"
  unfolding etape1_dry_actions
  by (auto simp: etape1_platform_dry_eq split: option.splits)

lemma best_rom_mem:
  "best_rom roms used s (bm, bs) = (Some b, sc) \<Longrightarrow> b \<in> set roms \<or> bm = Some b"
  by (induction roms arbitrary: bm bs) (auto simp: Let_def split: if_splits)

lemma move_images_actions:
  "snd (move_images dry_run p roms imgs used d) = snd (move_images dry_run' p roms imgs used d')"
proof (induction imgs arbitrary: used d d')
  case Nil
  show ?case by simp
next
  case (Cons img imgs)
  obtain bm bs where b: "best_rom roms used (path_stem img) (None, 0) = (bm, bs)"
    by fastforce
  show ?case
  proof (cases bm)
    case None
    with b Cons.IH[of used d d'] show ?thesis by simp
  next
    case (Some best)
    show ?thesis
    proof (cases "1 \<le> bs")
      case False
      with b Some Cons.IH[of used d d'] show ?thesis by simp
    next
      case True
      let ?t = "path_stem best @ ''.png''"
      have "snd (move_images dry_run p roms imgs (best # used)
                   (if dry_run then d else move_image img ?t d))
            = snd (move_images dry_run' p roms imgs (best # used)
                   (if dry_run' then d' else move_image img ?t d'))"
        by (rule Cons.IH)
      with b Some True show ?thesis by (simp add: case_prod_beta)
    qed
  qed
qed

lemma move_images_quiet:
  "snd (move_images dry_run p roms imgs used d) = [] \<Longrightarrow>
   fst (move_images dry_run p roms imgs used d) = d"
  by (induction imgs arbitrary: used d)
     (auto simp: case_prod_beta split: prod.splits option.splits if_splits)

lemma move_image_images:
  "images (move_image img t d) = images d
   \<or> (\<exists>im c. images d = Some im \<and> images (move_image img t d) = Some (write_file t c im))"
  by (auto simp: move_image_def split: option.splits)

lemma filter_names_write_file:
  "\<not> Q t \<Longrightarrow> filter Q (names (write_file t c im)) = filter Q (names im)"
  by (simp add: names_write_file)

text \<open>Moving images adds to \<open>images/\<close> only files named after ROMs.\<close>

lemma move_images_images:
  assumes "\<And>b. b \<in> set roms \<Longrightarrow> \<not> Q (path_stem b @ ''.png'')"
  shows "filter Q (names (the_images (fst (move_images dry_run p roms imgs used d))))
           = filter Q (names (the_images d))
         \<and> (images (fst (move_images dry_run p roms imgs used d)) = None \<longleftrightarrow> images d = None)"
proof (induction imgs arbitrary: used d)
  case Nil
  show ?case by simp
next
  case (Cons img imgs)
  obtain bm bs where b: "best_rom roms used (path_stem img) (None, 0) = (bm, bs)"
    by fastforce
  show ?case
  proof (cases "\<exists>best. bm = Some best \<and> 1 \<le> bs")
    case False
    then have "move_images dry_run p roms (img # imgs) used d
                 = move_images dry_run p roms imgs used d"
      using b by (auto split: option.splits)
    then show ?thesis using Cons.IH by simp
  next
    case True
    then obtain best where bm: "bm = Some best" "1 \<le> bs" by blast
    have mem: "best \<in> set roms" using best_rom_mem b bm by fastforce
    let ?t = "path_stem best @ ''.png''"
    let ?d1 = "if dry_run then d else move_image img ?t d"
    have eq: "fst (move_images dry_run p roms (img # imgs) used d)
                = fst (move_images dry_run p roms imgs (best # used) ?d1)"
      using b bm by (simp add: case_prod_beta)
    have "images ?d1 = images d
       \<or> (\<exists>im c. images d = Some im \<and> images ?d1 = Some (write_file ?t c im))"
      using move_image_images[of img ?t d] by auto
    then have "filter Q (names (the_images ?d1)) = filter Q (names (the_images d))
               \<and> (images ?d1 = None \<longleftrightarrow> images d = None)"
      using assms[OF mem] by (auto simp: the_images_def filter_names_write_file)
    with Cons.IH[of "best # used" ?d1] eq show ?thesis by simp
  qed
qed

lemma prune_orphans_actions:
  "snd (prune_orphans dry_run p d)
     = (case images d of
          None \<Rightarrow> []
        | Some im \<Rightarrow>
            if get_roms (files d) (rom_exts p) \<noteq> []
            then map (DeleteOrphan p)
                   (filter (\<lambda>f. path_stem f \<notin> set (map path_stem (get_roms (files d) (rom_exts p))))
                      (names im))
            else map (DeleteOrphan p) (names im))"
  by (auto simp: prune_orphans_def Let_def case_prod_beta delete_orphans_actions
      delete_all_actions names_def split: option.splits)

lemma generate_csv_actions:
  "snd (generate_csv dry_run p d)
     = (if get_roms (files d) (rom_exts p) \<noteq> []
        then [WriteCsv p (map (csv_line (load_csv (map_of (files d) ''filelist.csv'')))
                            (get_roms (files d) (rom_exts p)))]
        else if map_of (files d) ''filelist.csv'' \<noteq> None then [TruncateCsv p] else [])"
  by (simp add: generate_csv_def Let_def)

lemma create_images_dir_actions:
  "snd (create_images_dir dry_run p roms d)
     = (if images d = None \<and> roms \<noteq> [] then [CreateImagesDir p] else [])"
  by (simp add: create_images_dir_def)

lemma rfind_append_png: "rfind (CHR ''.'') (s @ ''.png'') = int (length s)"
  by (simp add: rfind_def)

lemma path_stem_png: "s \<noteq> [] \<Longrightarrow> path_stem (s @ ''.png'') = s"
  by (simp add: path_stem_def rfind_append_png Let_def)

lemma path_suffix_stem: "path_suffix f \<noteq> [] \<Longrightarrow> path_stem f \<noteq> []"
  by (auto simp: path_suffix_def path_stem_def Let_def split: if_splits)

lemma rom_suffix_nonempty: "is_rom (rom_exts p) f \<Longrightarrow> path_suffix f \<noteq> []"
  by (auto simp: is_rom_def lower_def dest!: rom_exts_cases)

lemma rom_stem_nonempty: "is_rom (rom_exts p) f \<Longrightarrow> path_stem f \<noteq> []"
  by (simp add: rom_suffix_nonempty path_suffix_stem)

lemma etape2_platform_parts:
  "etape2_platform dry_run p d
     = (fst (generate_csv dry_run p (step2_dir4 dry_run p d)),
        snd (create_images_dir dry_run p (get_roms (files d) (rom_exts p)) d)
        @ snd (step2_moves dry_run p d)
        @ snd (step2_dups dry_run p d)
        @ snd (prune_orphans dry_run p (step2_dir3 dry_run p d))
        @ snd (generate_csv dry_run p (step2_dir4 dry_run p d)))"
  by (simp add: etape2_platform_def Let_def case_prod_beta step2_dir1_def step2_moves_def
      step2_dups_def step2_dir3_def step2_dir4_def)

lemma step2_dry:
  "step2_dir1 True p d = d" "fst (step2_moves True p d) = d" "fst (step2_dups True p d) = files d"
  "step2_dir3 True p d = d" "step2_dir4 True p d = d"
proof -
  show 1: "step2_dir1 True p d = d"
    by (simp add: step2_dir1_def create_images_dir_def)
  show 2: "fst (step2_moves True p d) = d"
    using move_images_dry[of p _ _ "[]" d] 1
    by (auto simp: step2_moves_def) (metis prod.collapse)
  show 3: "fst (step2_dups True p d) = files d"
    using prune_duplicates_dry[of p _ _ "files d"] 2
    by (auto simp: step2_dups_def) (metis prod.collapse)
  show 4: "step2_dir3 True p d = d" by (simp add: step2_dir3_def 2 3)
  show "step2_dir4 True p d = d"
    using prune_orphans_dry[of p d] by (simp add: step2_dir4_def 4) (metis prod.collapse)
qed

lemma names_filter_key: "names (filter (\<lambda>e. R (fst e)) fs) = filter R (names fs)"
  by (induction fs) (auto simp: names_def)

lemma get_roms_filter_key:
  "get_roms (filter (\<lambda>e. R (fst e)) fs) exts = filter R (get_roms fs exts)"
proof -
  have "filter (is_rom exts) (filter R (names fs)) = filter R (filter (is_rom exts) (names fs))"
    by (auto intro: filter_cong)
  then show ?thesis
    by (simp only: get_roms_def names_filter_key filter_sort)
qed

lemma step2_dir1_exec:
  "files (step2_dir1 False p d) = files d"
  "the_images (step2_dir1 False p d) = the_images d"
  "get_roms (files d) (rom_exts p) \<noteq> [] \<Longrightarrow> images (step2_dir1 False p d) \<noteq> None"
  "get_roms (files d) (rom_exts p) = [] \<Longrightarrow> step2_dir1 False p d = d"
  by (auto simp: step2_dir1_def create_images_dir_def the_images_def)

lemma step2_moves_files:
  "\<exists>M. M \<subseteq> set (get_images (files d)) \<and>
       files (fst (step2_moves dry_run p d)) = filter (\<lambda>e. fst e \<notin> M) (files d)"
proof -
  have f1: "files (step2_dir1 dry_run p d) = files d"
    by (simp add: step2_dir1_def create_images_dir_files)
  show ?thesis
  proof (cases "get_images (files d) \<noteq> [] \<and> get_roms (files d) (rom_exts p) \<noteq> []")
    case True
    then have e: "fst (step2_moves dry_run p d)
        = fst (move_images dry_run p (get_roms (files d) (rom_exts p)) (get_images (files d)) []
             (step2_dir1 dry_run p d))"
      by (simp add: step2_moves_def)
    show ?thesis
      unfolding e f1 [symmetric] by (rule move_images_files)
  next
    case False
    then have e: "fst (step2_moves dry_run p d) = step2_dir1 dry_run p d"
      unfolding step2_moves_def by (simp only: if_False fst_conv)
    have "{} \<subseteq> set (get_images (files d)) \<and>
       files (fst (step2_moves dry_run p d)) = filter (\<lambda>e. fst e \<notin> {}) (files d)"
      by (simp add: e f1)
    then show ?thesis by (rule exI)
  qed
qed

lemma rom_not_in_images:
  "M \<subseteq> set (get_images fs) \<Longrightarrow> is_rom (rom_exts p) f \<Longrightarrow> f \<notin> M"
  using rom_not_image by (auto simp: get_images_def)

lemma get_roms_is_rom: "f \<in> set (get_roms fs exts) \<Longrightarrow> is_rom exts f"
  by (simp add: set_get_roms)

lemma step2_moves_roms:
  "get_roms (files (fst (step2_moves dry_run p d))) (rom_exts p) = get_roms (files d) (rom_exts p)"
proof -
  from step2_moves_files[of d dry_run p]
  obtain M where M: "M \<subseteq> set (get_images (files d))"
      "files (fst (step2_moves dry_run p d)) = filter (\<lambda>e. fst e \<notin> M) (files d)"
    by (elim exE conjE)
  have "\<forall>f\<in>set (get_roms (files d) (rom_exts p)). f \<notin> M"
    using M(1) by (meson rom_not_in_images get_roms_is_rom)
  then have "filter (\<lambda>f. f \<notin> M) (get_roms (files d) (rom_exts p)) = get_roms (files d) (rom_exts p)"
    by (simp add: filter_id_conv)
  then show ?thesis
    using get_roms_filter_key[of "\<lambda>n. n \<notin> M" "files d" "rom_exts p"] by (simp add: M(2))
qed

lemma step2_moves_csv:
  "map_of (files (fst (step2_moves dry_run p d))) ''filelist.csv''
     = map_of (files d) ''filelist.csv''"
proof -
  from step2_moves_files[of d dry_run p]
  obtain M where M: "M \<subseteq> set (get_images (files d))"
      "files (fst (step2_moves dry_run p d)) = filter (\<lambda>e. fst e \<notin> M) (files d)"
    by (elim exE conjE)
  have "''filelist.csv'' \<notin> M" using M(1) csv_not_image by (auto simp: get_images_def)
  then show ?thesis
    using map_of_filter_key[of "\<lambda>n. n \<notin> M" "files d" "''filelist.csv''"] by (simp add: M(2))
qed

lemma step2_dups_exec:
  "fst (step2_dups False p d)
     = filter (\<lambda>e. \<not> (fst e \<in> set (get_roms (files d) (rom_exts p)) \<and>
                       is_duplicate (zip_stems (get_roms (files d) (rom_exts p))) (fst e)))
         (files (fst (step2_moves False p d)))"
  by (cases "get_roms (files d) (rom_exts p) = []")
     (simp_all add: step2_dups_def prune_duplicates_files)

lemma step2_dups_roms:
  "get_roms (fst (step2_dups False p d)) (rom_exts p)
     = filter (\<lambda>f. \<not> is_duplicate (zip_stems (get_roms (files d) (rom_exts p))) f)
         (get_roms (files d) (rom_exts p))"
proof -
  let ?roms = "get_roms (files d) (rom_exts p)"
  have "get_roms (fst (step2_dups False p d)) (rom_exts p)
          = filter (\<lambda>f. \<not> (f \<in> set ?roms \<and> is_duplicate (zip_stems ?roms) f)) ?roms"
    unfolding step2_dups_exec
    using get_roms_filter_key[of "\<lambda>f. \<not> (f \<in> set ?roms \<and> is_duplicate (zip_stems ?roms) f)"
        "files (fst (step2_moves False p d))" "rom_exts p"]
    by (simp add: step2_moves_roms)
  also have "\<dots> = filter (\<lambda>f. \<not> is_duplicate (zip_stems ?roms) f) ?roms"
    by (auto intro: filter_cong)
  finally show ?thesis .
qed

lemma step2_dups_csv:
  "map_of (fst (step2_dups False p d)) ''filelist.csv'' = map_of (files d) ''filelist.csv''"
proof -
  let ?roms = "get_roms (files d) (rom_exts p)"
  have "''filelist.csv'' \<notin> set ?roms" using csv_not_rom get_roms_is_rom by blast
  then show ?thesis
    unfolding step2_dups_exec
    using map_of_filter_key[of "\<lambda>n. \<not> (n \<in> set ?roms \<and> is_duplicate (zip_stems ?roms) n)"
        "files (fst (step2_moves False p d))" "''filelist.csv''"]
    by (simp add: step2_moves_csv)
qed

lemma step2_dups_actions:
  "snd (step2_dups dry_run p d)
     = map (DeleteDuplicate p)
         (filter (is_duplicate (zip_stems (get_roms (files d) (rom_exts p))))
            (get_roms (files d) (rom_exts p)))"
  by (simp add: step2_dups_def prune_duplicates_actions)

lemma step2_moves_actions: "snd (step2_moves dry_run p d) = snd (step2_moves dry_run' p d)"
  using move_images_actions[of dry_run p _ _ "[]" _ dry_run']
  by (simp add: step2_moves_def)

text \<open>The images left after the moves, as far as the orphan test sees them.\<close>

lemma step2_moves_orphans:
  fixes d p
  defines "Q \<equiv> \<lambda>f. path_stem f \<notin> set (map path_stem (get_roms (files d) (rom_exts p)))"
  shows "filter Q (names (the_images (fst (step2_moves False p d)))) = filter Q (names (the_images d))"
proof -
  let ?roms = "get_roms (files d) (rom_exts p)"
  have t: "\<not> Q (path_stem b @ ''.png'')" if "b \<in> set ?roms" for b
  proof -
    have "path_stem b \<noteq> []" using that get_roms_is_rom rom_stem_nonempty by blast
    then have "path_stem (path_stem b @ ''.png'') = path_stem b" by (rule path_stem_png)
    with that show ?thesis by (simp add: Q_def)
  qed
  show ?thesis
  proof (cases "get_images (files d) \<noteq> [] \<and> ?roms \<noteq> []")
    case True
    then show ?thesis
      using move_images_images[of ?roms Q False p "get_images (files d)" "[]" "step2_dir1 False p d", OF t]
      by (simp add: step2_moves_def step2_dir1_exec)
  next
    case False
    then have "fst (step2_moves False p d) = step2_dir1 False p d"
      unfolding step2_moves_def by (simp only: if_False fst_conv)
    then show ?thesis by (simp add: step2_dir1_exec)
  qed
qed

lemma step2_moves_images_exist:
  "get_roms (files d) (rom_exts p) \<noteq> [] \<Longrightarrow> images (fst (step2_moves False p d)) \<noteq> None"
proof -
  assume r: "get_roms (files d) (rom_exts p) \<noteq> []"
  have "images (fst (move_images False p roms imgs used d')) = None \<longleftrightarrow> images d' = None"
    for roms imgs used d'
    using move_images_images[of roms "\<lambda>_. False" False p imgs used d'] by simp
  moreover have "images (step2_dir1 False p d) \<noteq> None"
    using r by (rule step2_dir1_exec(3))
  ultimately show ?thesis
    unfolding step2_moves_def by (cases "get_images (files d) \<noteq> []") (simp_all add: r)
qed

lemma step2_moves_no_roms:
  "get_roms (files d) (rom_exts p) = [] \<Longrightarrow> fst (step2_moves False p d) = d"
  by (simp add: step2_moves_def step2_dir1_exec)

text \<open>Without duplicates, step 2 decides the same in both modes and keeps the ROMs.\<close>

lemma step2_dir3_exec:
  "files (step2_dir3 False p d) = fst (step2_dups False p d)"
  "images (step2_dir3 False p d) = images (fst (step2_moves False p d))"
  by (simp_all add: step2_dir3_def)

lemma step2_dir4_files: "files (step2_dir4 dry_run p d) = files (step2_dir3 dry_run p d)"
  by (simp add: step2_dir4_def prune_orphans_files)

lemma etape2_platform_roms:
  "get_roms (files (fst (etape2_platform False p d))) (rom_exts p)
     = filter (\<lambda>f. \<not> is_duplicate (zip_stems (get_roms (files d) (rom_exts p))) f)
         (get_roms (files d) (rom_exts p))"
proof -
  let ?d4 = "step2_dir4 False p d"
  have r4: "get_roms (files ?d4) (rom_exts p)
     = filter (\<lambda>f. \<not> is_duplicate (zip_stems (get_roms (files d) (rom_exts p))) f)
         (get_roms (files d) (rom_exts p))"
    by (simp add: step2_dir4_files step2_dir3_exec step2_dups_roms)
  have "files (fst (generate_csv False p ?d4)) = files ?d4
   \<or> (\<exists>c. files (fst (generate_csv False p ?d4)) = write_file ''filelist.csv'' c (files ?d4))"
    by (rule generate_csv_files)
  then have "get_roms (files (fst (generate_csv False p ?d4))) (rom_exts p)
               = get_roms (files ?d4) (rom_exts p)"
    using csv_not_rom[of p] by (auto simp: get_roms_write_file)
  with r4 show ?thesis by (simp add: etape2_platform_parts)
qed

lemma etape2_platform_parity:
  assumes nodup: "filter (is_duplicate (zip_stems (get_roms (files d) (rom_exts p))))
                    (get_roms (files d) (rom_exts p)) = []"
  shows "snd (etape2_platform False p d) = snd (etape2_platform True p d)"
proof -
  let ?roms = "get_roms (files d) (rom_exts p)"
  let ?d3 = "step2_dir3 False p d"
  have keep: "filter (\<lambda>f. \<not> is_duplicate (zip_stems ?roms) f) ?roms = ?roms"
    using nodup by (simp add: filter_id_conv filter_empty_conv)
  have roms3: "get_roms (files ?d3) (rom_exts p) = ?roms"
    by (simp add: step2_dir3_exec step2_dups_roms keep)
  have roms3': "get_roms (fst (step2_dups False p d)) (rom_exts p) = ?roms"
    by (simp add: step2_dups_roms keep)
  have csv3: "map_of (files ?d3) ''filelist.csv'' = map_of (files d) ''filelist.csv''"
    by (simp add: step2_dir3_exec step2_dups_csv)
  have a4: "snd (prune_orphans False p ?d3) = snd (prune_orphans True p d)"
  proof (cases "?roms = []")
    case True
    then have "fst (step2_moves False p d) = d" by (rule step2_moves_no_roms)
    moreover have "fst (step2_dups False p d) = files (fst (step2_moves False p d))"
      using True by (simp add: step2_dups_def)
    ultimately have "?d3 = d" by (simp add: step2_dir3_def)
    then show ?thesis by (simp add: prune_orphans_actions)
  next
    case False
    let ?Q = "\<lambda>f. path_stem f \<notin> set (map path_stem ?roms)"
    from step2_moves_images_exist[OF False]
    obtain im where im: "images (fst (step2_moves False p d)) = Some im" by auto
    then have ti: "the_images (fst (step2_moves False p d)) = im" by (simp add: the_images_def)
    have f: "filter ?Q (names im) = filter ?Q (names (the_images d))"
      using step2_moves_orphans[of d p] by (simp only: ti)
    have "snd (prune_orphans False p ?d3) = map (DeleteOrphan p) (filter ?Q (names im))"
      using False by (simp add: prune_orphans_actions roms3' step2_dir3_exec im)
    moreover have "snd (prune_orphans True p d)
                     = map (DeleteOrphan p) (filter ?Q (names (the_images d)))"
      using False by (simp add: prune_orphans_actions the_images_def names_def split: option.splits)
    ultimately show ?thesis by (simp only: f)
  qed
  have a5: "snd (generate_csv False p (step2_dir4 False p d)) = snd (generate_csv True p d)"
    by (simp add: generate_csv_actions step2_dir4_files step2_dir3_exec roms3' step2_dups_csv)
  have a3: "snd (step2_dups False p d) = snd (step2_dups True p d)"
    by (simp add: step2_dups_actions)
  have a2: "snd (step2_moves False p d) = snd (step2_moves True p d)"
    by (rule step2_moves_actions)
  have a1: "snd (create_images_dir False p ?roms d) = snd (create_images_dir True p ?roms d)"
    by (simp add: create_images_dir_actions)
  show ?thesis
    by (simp add: etape2_platform_parts a1 a2 a3 a4 a5 step2_dry)
qed

lemma allfiles_lines_listing:
  "allfiles_lines up v old ps
     = concat (map (\<lambda>p. case rom_listing v p of
                          None \<Rightarrow> [] | Some roms \<Rightarrow> map (allfiles_line up old p) roms) ps)"
  by (induction ps) (auto simp: rom_listing_def split: option.splits)

lemma valid_roms_listing:
  "valid_roms v ps
     = concat (map (\<lambda>p. case rom_listing v p of
                          None \<Rightarrow> [] | Some roms \<Rightarrow> map (rom_key p) roms) ps)"
  by (induction ps) (auto simp: rom_listing_def split: option.splits)

lemma allfiles_lines_cong:
  "(\<And>p. p \<in> set ps \<Longrightarrow> rom_listing v p = rom_listing v' p) \<Longrightarrow>
     allfiles_lines up v old ps = allfiles_lines up v' old ps"
  unfolding allfiles_lines_listing by (rule arg_cong[where f = concat]) (simp cong: map_cong)

lemma valid_roms_cong:
  "(\<And>p. p \<in> set ps \<Longrightarrow> rom_listing v p = rom_listing v' p) \<Longrightarrow>
     valid_roms v ps = valid_roms v' ps"
  unfolding valid_roms_listing by (rule arg_cong[where f = concat]) (simp cong: map_cong)

lemma etape3_actions:
  "snd (etape3 up dry_run v)
     = (case cubegm v ''allfiles.lst'' of
          None \<Rightarrow> []
        | Some t \<Rightarrow> [WriteAllfiles (allfiles_lines up v (load_allfiles (file_lines t) Map.empty) platforms)])"
  by (simp add: etape3_def Let_def split: option.splits)

lemma etape3_cubegm_other:
  "n \<noteq> ''allfiles.lst'' \<Longrightarrow> cubegm (fst (etape3 up dry_run v)) n = cubegm v n"
  by (simp add: etape3_def Let_def split: option.splits)

lemma etape3_platform_dirs: "platform_dirs (fst (etape3 up dry_run v)) = platform_dirs v"
  by (simp add: etape3_def Let_def split: option.splits)

lemma etape4_actions:
  "snd (etape4 dry_run v)
     = (case cubegm v ''favorites.lst'' of
          None \<Rightarrow> []
        | Some t \<Rightarrow> [WriteList ''favorites.lst''
                       (kept_lines (valid_roms v platforms) (list_lines t))])
       @ (case cubegm v ''recent.lst'' of
            None \<Rightarrow> []
          | Some t \<Rightarrow> [WriteList ''recent.lst''
                         (kept_lines (valid_roms v platforms) (list_lines t))])"
  by (auto simp: etape4_def Let_def case_prod_beta split: option.splits)

lemma etape2_platform_duplicates:
  "f \<in> set (filter (is_duplicate (zip_stems (get_roms (files d) (rom_exts p))))
              (get_roms (files d) (rom_exts p)))
   \<Longrightarrow> DeleteDuplicate p f \<in> set (snd (etape2_platform dry_run p d))"
  by (simp add: etape2_platform_parts step2_dups_actions)

lemma for_platforms_actions_mem:
  assumes "distinct ps" "p \<in> set ps" "platform_dirs v p = Some d" "a \<in> set (snd (body p d))"
  shows "a \<in> set (snd (for_platforms body ps v))"
proof -
  have "a \<in> set (case platform_dirs v p of None \<Rightarrow> [] | Some d \<Rightarrow> snd (body p d))"
    using assms(3,4) by simp
  then show ?thesis
    unfolding for_platforms_actions[OF assms(1)] using assms(2) by (auto intro!: bexI[of _ p])
qed

lemma sync_actions_dry:
  "actions (sync_sd_card up v True)
     = fst (snd (etape1 True platforms v))
       @ snd (for_platforms (etape2_platform True) platforms v)
       @ snd (etape3 up True v) @ snd (etape4 True v)"
proof -
  obtain a1 where 1: "etape1 True platforms v = (v, a1, None)"
    using etape1_dry[of platforms v] by (cases "etape1 True platforms v") auto
  have 2: "fst (for_platforms (etape2_platform True) platforms v) = v"
    by (rule for_platforms_frame) (rule etape2_platform_dry)
  show ?thesis
    by (simp add: sync_sd_card_def case_prod_beta 1 2 etape3_dry)
qed

lemma sync_actions_exec:
  assumes "etape1 False platforms v = (v, [], None)"
  shows "actions (sync_sd_card up v False)
     = snd (for_platforms (etape2_platform False) platforms v)
       @ snd (etape3 up False (fst (for_platforms (etape2_platform False) platforms v)))
       @ snd (etape4 False (fst (etape3 up False
                (fst (for_platforms (etape2_platform False) platforms v)))))"
  by (simp add: sync_sd_card_def case_prod_beta assms)

text \<open>
  C2, as the code has it. When the dry run reports no rename of step 1 and no duplicate
  to delete, the two modes decide the same: the actions the dry run reports (creation of
  \<open>images/\<close>, moves of images with their targets, deletions of orphan images, the
  rewrites of the CSV files, of the catalog and of the lists with their lines) are, in
  the same order, the actions the execute run performs from the same volume.
\<close>

theorem mode_parity:
  "(\<forall>a\<in>set (actions (sync_sd_card up v True)). \<not> disturbs a)
     \<longrightarrow> actions (sync_sd_card up v False) = actions (sync_sd_card up v True)"
proof
  assume H: "\<forall>a\<in>set (actions (sync_sd_card up v True)). \<not> disturbs a"
  let ?A1 = "fst (snd (etape1 True platforms v))"
  let ?A2 = "snd (for_platforms (etape2_platform True) platforms v)"
  have dp: "distinct platforms" by (rule distinct_platforms)
  have H1: "\<forall>a\<in>set ?A1. \<not> disturbs a" and H2: "\<forall>a\<in>set ?A2. \<not> disturbs a"
    using H by (simp_all add: sync_actions_dry)
  have q1: "?A1 = []"
  proof (rule ccontr)
    assume "?A1 \<noteq> []"
    then obtain a where a: "a \<in> set ?A1"
      by (meson last_in_set)
    with H1 etape1_disturbs show False by blast
  qed
  have v1: "etape1 False platforms v = (v, [], None)"
    using q1 by (rule etape1_quiet)
  have nodup: "filter (is_duplicate (zip_stems (get_roms (files d) (rom_exts p))))
                 (get_roms (files d) (rom_exts p)) = []"
    if "p \<in> set platforms" "platform_dirs v p = Some d" for p d
  proof (rule ccontr)
    assume "filter (is_duplicate (zip_stems (get_roms (files d) (rom_exts p))))
                 (get_roms (files d) (rom_exts p)) \<noteq> []"
    then obtain f where "f \<in> set (filter (is_duplicate (zip_stems (get_roms (files d) (rom_exts p))))
                 (get_roms (files d) (rom_exts p)))"
      by (meson last_in_set)
    then have "DeleteDuplicate p f \<in> set (snd (etape2_platform True p d))"
      by (rule etape2_platform_duplicates)
    then have "DeleteDuplicate p f \<in> set ?A2"
      using that by (intro for_platforms_actions_mem[OF dp])
    with H2 show False by auto
  qed
  let ?v2 = "fst (for_platforms (etape2_platform False) platforms v)"
  have a2: "snd (for_platforms (etape2_platform False) platforms v) = ?A2"
    unfolding for_platforms_actions[OF dp]
    by (rule arg_cong[where f = concat], rule map_cong)
       (auto simp: etape2_platform_parity[OF nodup] split: option.splits)
  have c2: "cubegm ?v2 = cubegm v" by (rule for_platforms_cubegm)
  have l2: "rom_listing ?v2 p = rom_listing v p" if "p \<in> set platforms" for p
  proof (cases "platform_dirs v p")
    case None
    then show ?thesis using that by (simp add: rom_listing_def for_platforms_dirs[OF dp])
  next
    case (Some d)
    have "filter (\<lambda>f. \<not> is_duplicate (zip_stems (get_roms (files d) (rom_exts p))) f)
            (get_roms (files d) (rom_exts p)) = get_roms (files d) (rom_exts p)"
      using nodup[OF that Some] by (simp add: filter_id_conv filter_empty_conv)
    then show ?thesis
      using that Some by (simp add: rom_listing_def for_platforms_dirs[OF dp] etape2_platform_roms)
  qed
  have al: "allfiles_lines up ?v2 old platforms = allfiles_lines up v old platforms" for old
    by (rule allfiles_lines_cong) (rule l2)
  have a3: "snd (etape3 up False ?v2) = snd (etape3 up True v)"
    by (simp add: etape3_actions c2 al split: option.splits)
  let ?v3 = "fst (etape3 up False ?v2)"
  have l3: "rom_listing ?v3 p = rom_listing v p" if "p \<in> set platforms" for p
    using l2[OF that] by (simp add: rom_listing_def etape3_platform_dirs)
  have c3: "cubegm ?v3 ''favorites.lst'' = cubegm v ''favorites.lst''"
      "cubegm ?v3 ''recent.lst'' = cubegm v ''recent.lst''"
    by (simp_all add: etape3_cubegm_other c2)
  have vr: "valid_roms ?v3 platforms = valid_roms v platforms"
    by (rule valid_roms_cong) (rule l3)
  have a4: "snd (etape4 False ?v3) = snd (etape4 True v)"
    by (simp add: etape4_actions c3 vr split: option.splits)
  show "actions (sync_sd_card up v False) = actions (sync_sd_card up v True)"
    by (simp only: sync_actions_exec[OF v1] sync_actions_dry q1 a2 a3 a4 append_Nil)
qed

text \<open>
  The claim as stated fails: a dry run never applies the changes of the earlier steps,
  so with \<open>zelda.gb\<close> and \<open>zelda.zip\<close> it reports a CSV of two lines, and the execute
  run, which has deleted \<open>zelda.gb\<close> by then, writes one line.
\<close>

theorem mode_parity_counterexample:
  "actions (sync_sd_card ascii_upper vol_zelda True)
     = [CreateImagesDir ''GB'', DeleteDuplicate ''GB'' ''zelda.gb'',
        WriteCsv ''GB'' [''zelda.gb,zelda,zelda'', ''zelda.zip,zelda,zelda'']]
   \<and> actions (sync_sd_card ascii_upper vol_zelda False)
     = [CreateImagesDir ''GB'', DeleteDuplicate ''GB'' ''zelda.gb'',
        WriteCsv ''GB'' [''zelda.zip,zelda,zelda'']]"
  by code_simp

theorem mode_parity_witness:
  "actions (sync_sd_card ascii_upper vol_mario False)
     = [DeleteOrphan ''GB'' ''ghost.png'', WriteCsv ''GB'' [''mario.zip,mario,mario'']]"
proof -
  have d: "actions (sync_sd_card ascii_upper vol_mario True)
     = [DeleteOrphan ''GB'' ''ghost.png'', WriteCsv ''GB'' [''mario.zip,mario,mario'']]"
    by code_simp
  then have "\<forall>a\<in>set (actions (sync_sd_card ascii_upper vol_mario True)). \<not> disturbs a"
    by simp
  with mode_parity [where v = vol_mario and up = ascii_upper] d show ?thesis by simp
qed

end
